theory Spec2Isabelle
  imports Main "HOL-Library.AList" "HOL-Library.Sublist"
begin

section \<open>Python values, dictionaries and exceptions\<close>

text \<open>
  The two management commands are Python scripts. Exceptions are values: a function
  that can raise returns a sum, \<open>Inl\<close> carrying the exception. An \<open>OSError\<close> and an
  \<open>IOError\<close> carry their \<open>errno\<close>, which \<open>mkdir_p\<close> inspects.
\<close>

datatype error =
    OSError int
  | IOError int
  | KeyError string
  | IndexError
  | TypeError
  | ShutilError
  | ReadError

definition EEXIST :: int where "EEXIST = 17"
definition ENOENT :: int where "ENOENT = 2"
definition ENOTDIR :: int where "ENOTDIR = 20"
definition EISDIR :: int where "EISDIR = 21"

text \<open>
  The values a processed position holds: JSON scalars, and model instances (a court, the
  judge), which are known by a name only.
\<close>

datatype pyval = PNone | PStr string | PInt int | PBool bool | PObj string

text \<open>Python's truth value of a scalar, as tested by \<open>if pos["court"]:\<close>.\<close>

fun truthy :: "pyval \<Rightarrow> bool" where
  "truthy PNone = False"
| "truthy (PStr s) = (s \<noteq> [])"
| "truthy (PInt i) = (i \<noteq> 0)"
| "truthy (PBool b) = b"
| "truthy (PObj name) = True"

type_synonym pydict = "string \<rightharpoonup> pyval"

text \<open>\<open>d[k]\<close> and \<open>del d[k]\<close>: both raise \<open>KeyError\<close> on a missing key.\<close>

definition getitem :: "pydict \<Rightarrow> string \<Rightarrow> error + pyval" where
  "getitem d k = (case d k of None \<Rightarrow> Inl (KeyError k) | Some v \<Rightarrow> Inr v)"

definition delitem :: "pydict \<Rightarrow> string \<Rightarrow> error + pydict" where
  "delitem d k = (case d k of None \<Rightarrow> Inl (KeyError k) | Some v \<Rightarrow> Inr (d(k := None)))"

text \<open>Sequencing of fallible steps: the first exception ends the computation.\<close>

definition andthen :: "'e + 'a \<Rightarrow> ('a \<Rightarrow> 'e + 'b) \<Rightarrow> 'e + 'b" where
  "andthen r f = (case r of Inl e \<Rightarrow> Inl e | Inr x \<Rightarrow> f x)"

section \<open>The judge importer (import_ca_judges.py)\<close>

text \<open>
  The body of the loop \<open>for pos in processed\<close>, lines 59 to 85, on one processed
  position. \<open>convert_date_to_gran_format\<close> and \<open>GRANULARITY_DAY\<close> are imported from
  modules outside the sources at hand, so they are parameters: \<open>conv\<close> may raise, \<open>day\<close>
  is the constant.

  Each guarded deletion is its own step, in the order of the source.
\<close>

definition del_if_truthy :: "string \<Rightarrow> string \<Rightarrow> pydict \<Rightarrow> error + pydict" where
  "del_if_truthy k victim pos =
     andthen (getitem pos k) (\<lambda>v. if truthy v then delitem pos victim else Inr pos)"

definition convert_start :: "(pyval \<Rightarrow> error + pyval) \<Rightarrow> pyval \<Rightarrow> pydict \<Rightarrow> error + pydict" where
  "convert_start conv day pos =
     andthen (getitem pos ''date_start'') (\<lambda>v.
       if truthy v
       then andthen (conv v) (\<lambda>d.
              Inr (pos(''date_start'' \<mapsto> d, ''date_granularity_start'' \<mapsto> day)))
       else Inr pos)"

definition convert_termination ::
  "(pyval \<Rightarrow> error + pyval) \<Rightarrow> pyval \<Rightarrow> pydict \<Rightarrow> error + pydict" where
  "convert_termination conv day pos =
     andthen (getitem pos ''date_termination'') (\<lambda>v.
       if truthy v
       then andthen (conv v) (\<lambda>d.
              Inr (pos(''date_termination'' \<mapsto> d, ''date_granularity_termination'' \<mapsto> day)))
       else andthen (delitem pos ''date_termination'') (\<lambda>pos1.
              delitem pos1 ''termination_reason''))"

definition prepare_position ::
  "(pyval \<Rightarrow> error + pyval) \<Rightarrow> pyval \<Rightarrow> pydict \<Rightarrow> error + pydict" where
  "prepare_position conv day pos =
     andthen (delitem pos ''pending_status'') (\<lambda>p1.
     andthen (delitem p1 ''inactive_status'') (\<lambda>p2.
     andthen (del_if_truthy ''court'' ''organization_name'' p2) (\<lambda>p3.
     andthen (del_if_truthy ''position_type'' ''job_title'' p3) (\<lambda>p4.
     andthen (convert_start conv day p4) (\<lambda>p5.
     convert_termination conv day p5)))))"

text \<open>
  \<open>Position.objects.create(**pos, person=judge)\<close>: the keyword arguments are the
  prepared dictionary plus \<open>person\<close>; a dictionary that already has the key \<open>person\<close>
  makes the call a \<open>TypeError\<close> (a keyword given twice). The created record is
  modelled by the fields passed to \<open>create\<close>.
\<close>

definition create_position :: "pyval \<Rightarrow> pydict \<Rightarrow> error + pydict" where
  "create_position judge pos =
     (case pos ''person'' of
        Some v \<Rightarrow> Inl TypeError
      | None \<Rightarrow> Inr (pos(''person'' \<mapsto> judge)))"

definition import_position ::
  "(pyval \<Rightarrow> error + pyval) \<Rightarrow> pyval \<Rightarrow> pyval \<Rightarrow> pydict \<Rightarrow> error + pydict" where
  "import_position conv day judge pos =
     andthen (prepare_position conv day pos) (create_position judge)"

text \<open>
  The loop over one judge's processed positions: the records created so far are the
  state; the first exception aborts the loop and leaves the earlier records created.
\<close>

fun import_positions ::
  "(pyval \<Rightarrow> error + pyval) \<Rightarrow> pyval \<Rightarrow> pyval \<Rightarrow> pydict list \<Rightarrow> pydict list
   \<Rightarrow> (error \<times> pydict list) + pydict list" where
  "import_positions conv day judge [] created = Inr created"
| "import_positions conv day judge (pos # rest) created =
     (case import_position conv day judge pos of
        Inl e \<Rightarrow> Inl (e, created)
      | Inr r \<Rightarrow> import_positions conv day judge rest (created @ [r]))"

text \<open>A field of a result, \<open>None\<close> when the field is absent or the call raised.\<close>

definition field :: "error + pydict \<Rightarrow> string \<Rightarrow> pyval option" where
  "field r k = (case r of Inl e \<Rightarrow> None | Inr d \<Rightarrow> d k)"

definition is_set :: "pydict \<Rightarrow> string \<Rightarrow> bool" where
  "is_set d k = (case d k of None \<Rightarrow> False | Some v \<Rightarrow> truthy v)"

subsection \<open>Sample positions\<close>

definition conv_same :: "pyval \<Rightarrow> error + pyval" where
  "conv_same v = Inr v"

definition ex_position :: pydict where
  "ex_position = map_of
     [(''pending_status'', PBool False), (''inactive_status'', PBool False),
      (''court'', PStr ''calctapp''), (''organization_name'', PStr ''Superior Court''),
      (''position_type'', PStr ''jud''), (''job_title'', PStr ''Judge''),
      (''date_start'', PStr ''2001-05-01''), (''date_termination'', PNone),
      (''termination_reason'', PStr ''retire_vol'')]"

definition ex_position_gran :: pydict where
  "ex_position_gran = ex_position(''date_granularity_termination'' \<mapsto> PStr ''%Y'')"

definition ex_position_term :: pydict where
  "ex_position_term = ex_position(''date_termination'' \<mapsto> PStr ''2010-01-31'')"

definition ex_created :: pydict where
  "ex_created = projr (import_position conv_same (PStr ''%Y-%m-%d'') (PObj ''judge'') ex_position)"

definition ex_created_term :: pydict where
  "ex_created_term = projr (import_position conv_same (PStr ''%Y-%m-%d'') (PObj ''judge'') ex_position_term)"

section \<open>The filesystem\<close>

text \<open>
  The bulk-data command works on a directory tree. A path is the list of its components
  below the root, so \<open>os.path.join(d, 'tmp', t)\<close> is \<open>d @ [''tmp'', t]\<close>; names are single
  components (no slash, neither \<open>.\<close> nor \<open>..\<close>) and there are no symbolic links.

  A directory holds its entries in listing order; an entry name is bound to the first
  node listed under it, so a directory is read through \<open>map_of\<close> and listed without
  repetitions. A tar archive holds named members, a member added from a directory being
  that directory's subtree.
\<close>

type_synonym path = "string list"

datatype content =
    Raw string
  | Tar "(string \<times> node) list"
  | Gz content
and node =
    File content
  | Dir "(string \<times> node) list"

text \<open>
  An exception leaves the filesystem as it was when it was raised: a failed operation
  returns the exception with that state.
\<close>

type_synonym 'a result = "(error \<times> node) + 'a"

text \<open>The filesystem an operation leaves behind, whether it returned or raised.\<close>

definition final_state :: "node result \<Rightarrow> node" where
  "final_state r = (case r of Inl (e, fs1) \<Rightarrow> fs1 | Inr fs1 \<Rightarrow> fs1)"

primrec lookup :: "node \<Rightarrow> path \<Rightarrow> node option" where
  "lookup n [] = Some n"
| "lookup n (x # xs) =
     (case n of
        File c \<Rightarrow> None
      | Dir es \<Rightarrow> (case map_of es x of None \<Rightarrow> None | Some ch \<Rightarrow> lookup ch xs))"

definition exists_path :: "node \<Rightarrow> path \<Rightarrow> bool" where
  "exists_path fs p = (lookup fs p \<noteq> None)"

definition isdir :: "node \<Rightarrow> path \<Rightarrow> bool" where
  "isdir fs p = (case lookup fs p of Some (Dir es) \<Rightarrow> True | _ \<Rightarrow> False)"

definition isfile :: "node \<Rightarrow> path \<Rightarrow> bool" where
  "isfile fs p = (case lookup fs p of Some (File c) \<Rightarrow> True | _ \<Rightarrow> False)"

text \<open>
  \<open>set_at fs p v\<close> binds the last component of \<open>p\<close> to \<open>v\<close> in its parent directory, or
  removes the binding when \<open>v\<close> is \<open>None\<close>. Where the parent is not a directory nothing
  changes: the operations below test for that case first and raise.
\<close>

primrec set_at :: "node \<Rightarrow> path \<Rightarrow> node option \<Rightarrow> node" where
  "set_at n [] v = (case v of None \<Rightarrow> n | Some m \<Rightarrow> m)"
| "set_at n (x # xs) v =
     (case n of
        File c \<Rightarrow> File c
      | Dir es \<Rightarrow>
          (if xs = []
           then (case v of
                   None \<Rightarrow> Dir (AList.delete x es)
                 | Some m \<Rightarrow> Dir (AList.update x m es))
           else (case map_of es x of
                   None \<Rightarrow> Dir es
                 | Some ch \<Rightarrow> Dir (AList.update x (set_at ch xs v) es))))"

text \<open>
  The error of a system call on \<open>p\<close> whose parent directory is missing (\<open>ENOENT\<close>) or
  has a regular file on the way (\<open>ENOTDIR\<close>).
\<close>

definition parent_errno :: "node \<Rightarrow> path \<Rightarrow> int option" where
  "parent_errno fs p =
     (if p = [] \<or> isdir fs (butlast p) then None
      else if list_ex (isfile fs) (prefixes (butlast p)) then Some ENOTDIR
      else Some ENOENT)"

text \<open>\<open>os.listdir\<close>.\<close>

definition listdir :: "node \<Rightarrow> path \<Rightarrow> error + string list" where
  "listdir fs p =
     (case lookup fs p of
        None \<Rightarrow> Inl (OSError (case parent_errno fs p of Some e \<Rightarrow> e | None \<Rightarrow> ENOENT))
      | Some (File c) \<Rightarrow> Inl (OSError ENOTDIR)
      | Some (Dir es) \<Rightarrow> Inr (remdups (map fst es)))"

text \<open>\<open>os.mkdir\<close>.\<close>

definition mkdir :: "node \<Rightarrow> path \<Rightarrow> node result" where
  "mkdir fs p =
     (if exists_path fs p then Inl (OSError EEXIST, fs)
      else (case parent_errno fs p of
              Some e \<Rightarrow> Inl (OSError e, fs)
            | None \<Rightarrow> Inr (set_at fs p (Some (Dir [])))))"

text \<open>
  \<open>os.makedirs\<close> of Python 2: when the parent does not exist it is made first, an
  \<open>EEXIST\<close> from that recursive call being ignored, then the directory itself is made.
\<close>

function makedirs :: "node \<Rightarrow> path \<Rightarrow> node result" where
  "makedirs fs p =
     (if p \<noteq> [] \<and> \<not> exists_path fs (butlast p)
      then (case makedirs fs (butlast p) of
              Inl (e, fs1) \<Rightarrow> if e = OSError EEXIST then mkdir fs1 p else Inl (e, fs1)
            | Inr fs1 \<Rightarrow> mkdir fs1 p)
      else mkdir fs p)"
  by pat_completeness auto
termination
  by (relation "measure (\<lambda>(fs, p). length p)") auto

declare makedirs.simps [simp del]

text \<open>
  \<open>open(p, 'wb')\<close> followed by writing \<open>c\<close> and closing: the file is created or
  truncated; a directory at \<open>p\<close> or a missing parent is an \<open>IOError\<close>.
\<close>

definition write_file :: "node \<Rightarrow> path \<Rightarrow> content \<Rightarrow> node result" where
  "write_file fs p c =
     (if isdir fs p then Inl (IOError EISDIR, fs)
      else (case parent_errno fs p of
              Some e \<Rightarrow> Inl (IOError e, fs)
            | None \<Rightarrow> Inr (set_at fs p (Some (File c)))))"

text \<open>
  \<open>os.rename\<close> with the POSIX rules: a file replaces a file, a directory replaces an
  empty directory, and the source disappears from its old place.
\<close>

definition EINVAL :: int where "EINVAL = 22"
definition ENOTEMPTY :: int where "ENOTEMPTY = 39"

definition rename :: "node \<Rightarrow> path \<Rightarrow> path \<Rightarrow> node result" where
  "rename fs src dst =
     (case lookup fs src of
        None \<Rightarrow> Inl (OSError (case parent_errno fs src of Some e \<Rightarrow> e | None \<Rightarrow> ENOENT), fs)
      | Some n \<Rightarrow>
          if src = dst then Inr fs
          else (case parent_errno fs dst of
                  Some e \<Rightarrow> Inl (OSError e, fs)
                | None \<Rightarrow>
                    (case (n, lookup fs dst) of
                       (File c, Some (Dir es)) \<Rightarrow> Inl (OSError EISDIR, fs)
                     | (File c, _) \<Rightarrow> Inr (set_at (set_at fs src None) dst (Some n))
                     | (Dir es, Some (File c)) \<Rightarrow> Inl (OSError ENOTDIR, fs)
                     | (Dir es, Some (Dir ds)) \<Rightarrow>
                         if ds \<noteq> [] then Inl (OSError ENOTEMPTY, fs)
                         else if prefix src dst then Inl (OSError EINVAL, fs)
                         else Inr (set_at (set_at fs src None) dst (Some n))
                     | (Dir es, None) \<Rightarrow>
                         if prefix src dst then Inl (OSError EINVAL, fs)
                         else Inr (set_at (set_at fs src None) dst (Some n)))))"

text \<open>
  \<open>shutil.move\<close> of Python 2.7. A destination that is a directory receives the source
  under the source's own name, unless that name is taken. When \<open>os.rename\<close> raises an
  \<open>OSError\<close> the source is copied and then removed: a directory by \<open>copytree\<close>, which
  first makes the destination directory, a file by \<open>copy2\<close>.
\<close>

definition move_fallback :: "node \<Rightarrow> path \<Rightarrow> path \<Rightarrow> path \<Rightarrow> node result" where
  "move_fallback fs src dst real_dst =
     (case lookup fs src of
        Some (Dir es) \<Rightarrow>
          if prefix src dst then Inl (ShutilError, fs)
          else (case makedirs fs real_dst of
                  Inl err \<Rightarrow> Inl err
                | Inr fs1 \<Rightarrow> Inr (set_at (set_at fs1 real_dst (Some (Dir es))) src None))
      | Some (File c) \<Rightarrow>
          (case write_file fs real_dst c of
             Inl err \<Rightarrow> Inl err
           | Inr fs1 \<Rightarrow> Inr (set_at fs1 src None))
      | None \<Rightarrow>
          Inl (IOError (case parent_errno fs src of Some e \<Rightarrow> e | None \<Rightarrow> ENOENT), fs))"

definition move_to :: "node \<Rightarrow> path \<Rightarrow> path \<Rightarrow> path \<Rightarrow> node result" where
  "move_to fs src dst real_dst =
     (case rename fs src real_dst of
        Inr fs1 \<Rightarrow> Inr fs1
      | Inl (OSError e, fs1) \<Rightarrow> move_fallback fs1 src dst real_dst
      | Inl (e, fs1) \<Rightarrow> Inl (e, fs1))"

definition move :: "node \<Rightarrow> path \<Rightarrow> path \<Rightarrow> node result" where
  "move fs src dst =
     (if isdir fs dst
      then (if src = dst then rename fs src dst
            else if src = [] then Inl (ShutilError, fs)
            else if exists_path fs (dst @ [last src]) then Inl (ShutilError, fs)
            else move_to fs src dst (dst @ [last src]))
      else move_to fs src dst dst)"

text \<open>
  Where \<open>shutil.move\<close> puts the entry \<open>name\<close> that it is asked to move to
  \<open>target/name\<close>: there, or inside it when a directory of that name is in the target.
\<close>

definition landing :: "node \<Rightarrow> path \<Rightarrow> string \<Rightarrow> path" where
  "landing fs target name =
     (if isdir fs (target @ [name]) then target @ [name, name] else target @ [name])"

text \<open>
  \<open>fnmatch\<close> of a name against a pattern: \<open>*\<close> matches any run of characters, \<open>?\<close> any
  one character, every other character itself. (The patterns of this command are \<open>*\<close>,
  \<open>*.tar*\<close>, \<open>*.tar\<close> and \<open>*.json\<close>; character classes do not occur.)
\<close>

fun fnmatch :: "string \<Rightarrow> string \<Rightarrow> bool" where
  "fnmatch [] [] = True"
| "fnmatch (c # cs) [] = False"
| "fnmatch [] (p # ps) = (p = CHR ''*'' \<and> fnmatch [] ps)"
| "fnmatch (c # cs) (p # ps) =
     (if p = CHR ''*'' then fnmatch (c # cs) ps \<or> fnmatch cs (p # ps)
      else (p = CHR ''?'' \<or> p = c) \<and> fnmatch cs ps)"

text \<open>
  \<open>glob.glob(os.path.join(d, pat))\<close> where only \<open>pat\<close> has wildcards: \<open>glob1\<close> lists
  the directory (an unreadable directory gives no names), drops the names beginning
  with a dot unless the pattern begins with one, and keeps the names that match.
\<close>

definition hidden :: "string \<Rightarrow> bool" where
  "hidden name = (case name of [] \<Rightarrow> False | c # cs \<Rightarrow> c = CHR ''.'')"

definition glob1 :: "node \<Rightarrow> path \<Rightarrow> string \<Rightarrow> string list" where
  "glob1 fs d pat =
     (case listdir fs d of
        Inl e \<Rightarrow> []
      | Inr names \<Rightarrow>
          filter (\<lambda>name. fnmatch name pat)
            (if hidden pat then names else filter (\<lambda>name. \<not> hidden name) names))"

definition glob :: "node \<Rightarrow> path \<Rightarrow> string \<Rightarrow> path list" where
  "glob fs d pat = map (\<lambda>name. d @ [name]) (glob1 fs d pat)"

section \<open>The bulk-data command (cl_make_bulk_data.py)\<close>

text \<open>
  \<open>bulk\<close> is \<open>settings.BULK_DATA_DIR\<close>. The staging directory of an object type is
  \<open>bulk/tmp/type\<close>, its published directory \<open>bulk/type\<close>.
\<close>

definition staging :: "path \<Rightarrow> string \<Rightarrow> path" where
  "staging bulk obj_type_str = bulk @ [''tmp'', obj_type_str]"

definition published :: "path \<Rightarrow> string \<Rightarrow> path" where
  "published bulk obj_type_str = bulk @ [obj_type_str]"

text \<open>
  \<open>mkdir_p\<close>, lines 94 to 102. \<open>mkdir_p_except\<close> is the \<open>except OSError\<close> clause applied
  to the outcome of the \<open>try\<close> body, whatever that body was.
\<close>

definition mkdir_p_except :: "node result \<Rightarrow> path \<Rightarrow> node result" where
  "mkdir_p_except r p =
     (case r of
        Inr fs1 \<Rightarrow> Inr fs1
      | Inl (OSError e, fs1) \<Rightarrow>
          if e = EEXIST \<and> isdir fs1 p then Inr fs1 else Inl (OSError e, fs1)
      | Inl (e, fs1) \<Rightarrow> Inl (e, fs1))"

definition mkdir_p :: "node \<Rightarrow> path \<Rightarrow> node result" where
  "mkdir_p fs p = mkdir_p_except (makedirs fs p) p"

text \<open>\<open>test_if_old_bulk_files_exist\<close>, lines 105 to 115.\<close>

definition test_if_old_bulk_files_exist :: "node \<Rightarrow> path \<Rightarrow> string \<Rightarrow> bool" where
  "test_if_old_bulk_files_exist fs bulk obj_type_str =
     (if glob fs (staging bulk obj_type_str) ''*'' \<noteq> [] then True else False)"

text \<open>\<open>swap_archives\<close>, lines 27 to 40: the loop over the globbed paths, then the function.\<close>

fun move_each :: "node \<Rightarrow> path list \<Rightarrow> path \<Rightarrow> node result" where
  "move_each fs [] target = Inr fs"
| "move_each fs (f # rest) target =
     (case move fs f (target @ [last f]) of
        Inl err \<Rightarrow> Inl err
      | Inr fs1 \<Rightarrow> move_each fs1 rest target)"

definition swap_archives :: "node \<Rightarrow> path \<Rightarrow> string \<Rightarrow> node result" where
  "swap_archives fs bulk obj_type_str =
     (case mkdir_p fs (published bulk obj_type_str) of
        Inl err \<Rightarrow> Inl err
      | Inr fs1 \<Rightarrow>
          move_each fs1 (glob fs1 (staging bulk obj_type_str) ''*.tar*'')
            (published bulk obj_type_str))"


subsection \<open>Records and their selection\<close>

text \<open>
  A record of one of the exported models: its primary key, an integer for documents,
  audio files and dockets and a string for courts, and its modification time. Times
  are counted in microseconds, the resolution of \<open>datetime\<close>.
\<close>

datatype pkval = IntPk int | StrPk string

record item =
  pk :: pkval
  date_modified :: int

definition timedelta_days :: "int \<Rightarrow> int" where
  "timedelta_days d = d * 86400 * 1000000"

text \<open>\<open>'%s' % pk\<close>: a string as it is, an integer in decimal.\<close>

fun digits_of :: "nat \<Rightarrow> string" where
  "digits_of n =
     (if n < 10 then [''0123456789'' ! n]
      else digits_of (n div 10) @ [''0123456789'' ! (n mod 10)])"

declare digits_of.simps [simp del]

definition str_int :: "int \<Rightarrow> string" where
  "str_int i = (if i < 0 then CHR ''-'' # digits_of (nat (- i)) else digits_of (nat i))"

fun str_pk :: "pkval \<Rightarrow> string" where
  "str_pk (IntPk i) = str_int i"
| "str_pk (StrPk s) = s"

fun is_int_pk :: "pkval \<Rightarrow> bool" where
  "is_int_pk (IntPk i) = True"
| "is_int_pk (StrPk s) = False"

text \<open>
  Lines 185 to 192: the queryset of an incremental export is
  \<open>filter(date_modified__gt=now() - timedelta(days=32))\<close>, that of a full export
  \<open>all()\<close>. \<open>objs\<close> is the table, \<open>now\<close> the time of the call.
\<close>

definition select_records :: "bool \<Rightarrow> int \<Rightarrow> item list \<Rightarrow> item list" where
  "select_records incremental now objs =
     (if incremental
      then filter (\<lambda>r. now - timedelta_days 32 < date_modified r) objs
      else objs)"

subsection \<open>Writing the records to disk\<close>

text \<open>The loop of lines 177 to 183 over the courts' keys.\<close>

fun mkdir_each :: "node \<Rightarrow> path \<Rightarrow> string list \<Rightarrow> node result" where
  "mkdir_each fs d [] = Inr fs"
| "mkdir_each fs d (court # rest) =
     (case mkdir_p fs (d @ [court]) of
        Inl err \<Rightarrow> Inl err
      | Inr fs1 \<Rightarrow> mkdir_each fs1 d rest)"

text \<open>
  The loop of lines 199 to 214. \<open>serialize\<close> stands for the API resource's
  \<open>serialize(full_dehydrate(build_bundle(obj=item)))\<close>, which may raise, and
  \<open>court_attr\<close> for \<open>deepgetattr(item, court_attr)\<close>; both belong to modules outside
  the sources at hand. The counter \<open>i\<close> is returned with the filesystem.
\<close>

fun write_items ::
  "(item \<Rightarrow> error + string) \<Rightarrow> (item \<Rightarrow> string) \<Rightarrow> path \<Rightarrow> node \<Rightarrow> item list \<Rightarrow> nat
   \<Rightarrow> (node \<times> nat) result" where
  "write_items serialize court_attr d fs [] i = Inr (fs, i)"
| "write_items serialize court_attr d fs (it # rest) i =
     (case serialize it of
        Inl e \<Rightarrow> Inl (e, fs)
      | Inr json_str \<Rightarrow>
          (case write_file fs (d @ [court_attr it, str_pk (pk it) @ ''.json'']) (Raw json_str) of
             Inl err \<Rightarrow> Inl err
           | Inr fs1 \<Rightarrow> write_items serialize court_attr d fs1 rest (i + 1)))"

text \<open>
  \<open>write_json_to_disk\<close>, lines 162 to 217. \<open>queryset_generator\<close> is imported from
  \<open>alert.lib.db_tools\<close>, outside the sources at hand, and is a parameter. Indexing the
  queryset at 0 raises \<open>IndexError\<close> when it is empty.
\<close>

definition write_json_to_disk ::
  "path \<Rightarrow> int \<Rightarrow> (item list \<Rightarrow> item list) \<Rightarrow> node \<Rightarrow> string \<Rightarrow> item list \<Rightarrow> (item \<Rightarrow> string)
   \<Rightarrow> (item \<Rightarrow> error + string) \<Rightarrow> string list \<Rightarrow> (node \<times> nat) result" where
  "write_json_to_disk bulk now queryset_generator fs obj_type_str objs court_attr serialize courts =
     (let incremental = test_if_old_bulk_files_exist fs bulk obj_type_str in
      case mkdir_each fs (staging bulk obj_type_str) courts of
        Inl err \<Rightarrow> Inl err
      | Inr fs1 \<Rightarrow>
          (let qs = select_records incremental now objs in
           case qs of
             [] \<Rightarrow> Inl (IndexError, fs1)
           | first # others \<Rightarrow>
               write_items serialize court_attr (staging bulk obj_type_str) fs1
                 (if is_int_pk (pk first) then queryset_generator qs else qs) 0))"

subsection \<open>Archiving\<close>

text \<open>
  \<open>tar.add(name, arcname=os.path.basename(name))\<close> for each of a list of paths: a path
  that is not there is an \<open>OSError\<close>.
\<close>

fun add_all :: "node \<Rightarrow> (string \<times> node) list \<Rightarrow> path list \<Rightarrow> ((string \<times> node) list) result" where
  "add_all fs members [] = Inr members"
| "add_all fs members (p # ps) =
     (case lookup fs p of
        None \<Rightarrow> Inl (OSError ENOENT, fs)
      | Some n \<Rightarrow> add_all fs (members @ [(last p, n)]) ps)"

text \<open>
  One round of the loop of lines 59 to 74: the archive is opened for writing, which
  creates it, the court's JSON files are added and the archive is closed.
\<close>

definition tar_court :: "node \<Rightarrow> path \<Rightarrow> string \<Rightarrow> node result" where
  "tar_court fs d court =
     (case write_file fs (d @ [court @ ''.tar.gz'']) (Gz (Tar [])) of
        Inl err \<Rightarrow> Inl err
      | Inr fs1 \<Rightarrow>
          (case add_all fs1 [] (glob fs1 (d @ [court]) ''*.json'') of
             Inl err \<Rightarrow> Inl err
           | Inr members \<Rightarrow>
               Inr (set_at fs1 (d @ [court @ ''.tar.gz'']) (Some (File (Gz (Tar members)))))))"

fun tar_courts :: "node \<Rightarrow> path \<Rightarrow> string list \<Rightarrow> node result" where
  "tar_courts fs d [] = Inr fs"
| "tar_courts fs d (court # rest) =
     (case tar_court fs d court of
        Inl err \<Rightarrow> Inl err
      | Inr fs1 \<Rightarrow> tar_courts fs1 d rest)"

text \<open>\<open>tar_and_compress_all_json_files\<close>, lines 57 to 91.\<close>

definition tar_and_compress_all_json_files :: "node \<Rightarrow> path \<Rightarrow> string \<Rightarrow> string list \<Rightarrow> node result" where
  "tar_and_compress_all_json_files fs bulk obj_type_str courts =
     (let d = staging bulk obj_type_str in
      case tar_courts fs d courts of
        Inl err \<Rightarrow> Inl err
      | Inr fs1 \<Rightarrow>
          (case write_file fs1 (d @ [''all.tar'']) (Tar []) of
             Inl err \<Rightarrow> Inl err
           | Inr fs2 \<Rightarrow>
               (case add_all fs2 [] (map (\<lambda>court. d @ [court @ ''.tar.gz'']) courts) of
                  Inl err \<Rightarrow> Inl err
                | Inr members \<Rightarrow>
                    Inr (set_at fs2 (d @ [''all.tar'']) (Some (File (Tar members)))))))"

text \<open>
  The members of an archive, through its compression, and the records among them: the
  members that are regular files.
\<close>

fun members_of :: "content \<Rightarrow> (string \<times> node) list" where
  "members_of (Raw s) = []"
| "members_of (Tar ms) = ms"
| "members_of (Gz c) = members_of c"

fun node_members :: "node \<Rightarrow> (string \<times> node) list" where
  "node_members (File c) = members_of c"
| "node_members (Dir es) = []"

definition is_regular :: "string \<times> node \<Rightarrow> bool" where
  "is_regular m = (case snd m of File c \<Rightarrow> True | Dir es \<Rightarrow> False)"

definition records_of :: "node \<Rightarrow> (string \<times> node) list" where
  "records_of n = filter is_regular (node_members n)"

text \<open>
  The records of the aggregate of the JSON path: the aggregate's members are the
  per-court archives, and its records are theirs.
\<close>

definition aggregate_records :: "node \<Rightarrow> (string \<times> node) list" where
  "aggregate_records n = concat (map (\<lambda>m. records_of (snd m)) (node_members n))"

text \<open>The records of the archive at a path; none when nothing is there.\<close>

definition records_at :: "node \<Rightarrow> path \<Rightarrow> (string \<times> node) list" where
  "records_at fs p = (case lookup fs p of None \<Rightarrow> [] | Some n \<Rightarrow> records_of n)"

definition aggregate_records_at :: "node \<Rightarrow> path \<Rightarrow> (string \<times> node) list" where
  "aggregate_records_at fs p = (case lookup fs p of None \<Rightarrow> [] | Some n \<Rightarrow> aggregate_records n)"

text \<open>
  The other way of archiving, \<open>make_archive\<close>, lines 220 to 315. \<open>tar_files\<close> is its
  dictionary of open archives, one under each court's key and the aggregate under
  \<open>all\<close>, each archive being the list of its members.
\<close>

type_synonym tar_files = "string \<rightharpoonup> (string \<times> node) list"

text \<open>
  \<open>tarfile.open(p, mode='a')\<close>: a file that is not there is created, empty, and the
  archive starts with no member; an archive that is there is read; a directory is an
  \<open>IOError\<close>, a file that is not an uncompressed tar archive a \<open>ReadError\<close>.
\<close>

definition open_append :: "node \<Rightarrow> path \<Rightarrow> (node \<times> (string \<times> node) list) result" where
  "open_append fs p =
     (case lookup fs p of
        None \<Rightarrow>
          (case write_file fs p (Raw []) of
             Inl err \<Rightarrow> Inl err
           | Inr fs1 \<Rightarrow> Inr (fs1, []))
      | Some (Dir es) \<Rightarrow> Inl (IOError EISDIR, fs)
      | Some (File (Tar ms)) \<Rightarrow> Inr (fs, ms)
      | Some (File c) \<Rightarrow> Inl (ReadError, fs))"

text \<open>
  Lines 267 to 278: an archive \<open>key.tar\<close> is opened under each key, the courts' keys
  first and \<open>all\<close> last.
\<close>

fun open_each :: "node \<Rightarrow> path \<Rightarrow> tar_files \<Rightarrow> string list \<Rightarrow> (node \<times> tar_files) result" where
  "open_each fs d tar_files [] = Inr (fs, tar_files)"
| "open_each fs d tar_files (k # ks) =
     (case open_append fs (d @ [k @ ''.tar'']) of
        Inl err \<Rightarrow> Inl err
      | Inr (fs1, ms) \<Rightarrow> open_each fs1 d (tar_files(k \<mapsto> ms)) ks)"

text \<open>
  The loop of lines 291 to 308. Every item is added to the archive under its court's
  key, a \<open>KeyError\<close> when there is none, and to the archive under \<open>all\<close>. An exception
  comes with the archives as they are by then.
\<close>

fun archive_items ::
  "(item \<Rightarrow> error + string) \<Rightarrow> (item \<Rightarrow> string) \<Rightarrow> tar_files \<Rightarrow> item list
   \<Rightarrow> (error \<times> tar_files) + tar_files" where
  "archive_items serialize court_attr tar_files [] = Inr tar_files"
| "archive_items serialize court_attr tar_files (it # rest) =
     (case serialize it of
        Inl e \<Rightarrow> Inl (e, tar_files)
      | Inr json_str \<Rightarrow>
          (let tarinfo = (str_pk (pk it) @ ''.json'', File (Raw json_str)) in
           case tar_files (court_attr it) of
             None \<Rightarrow> Inl (KeyError (court_attr it), tar_files)
           | Some ms \<Rightarrow>
               (let tar_files1 = tar_files(court_attr it \<mapsto> ms @ [tarinfo]) in
                case tar_files1 ''all'' of
                  None \<Rightarrow> Inl (KeyError ''all'', tar_files1)
                | Some al \<Rightarrow>
                    archive_items serialize court_attr
                      (tar_files1(''all'' \<mapsto> al @ [tarinfo])) rest)))"

text \<open>
  Lines 311 to 313: closing an archive writes it out with its members. When the loop
  raised instead, the archives are not closed and hold what had been added to them: an
  archive with no member is left as it was opened.
\<close>

fun close_each :: "node \<Rightarrow> path \<Rightarrow> tar_files \<Rightarrow> string list \<Rightarrow> node" where
  "close_each fs d tar_files [] = fs"
| "close_each fs d tar_files (k # ks) =
     close_each
       (case tar_files k of
          None \<Rightarrow> fs
        | Some ms \<Rightarrow> set_at fs (d @ [k @ ''.tar'']) (Some (File (Tar ms))))
       d tar_files ks"

fun flush_each :: "node \<Rightarrow> path \<Rightarrow> tar_files \<Rightarrow> string list \<Rightarrow> node" where
  "flush_each fs d tar_files [] = fs"
| "flush_each fs d tar_files (k # ks) =
     flush_each
       (case tar_files k of
          None \<Rightarrow> fs
        | Some ms \<Rightarrow> if ms = [] then fs else set_at fs (d @ [k @ ''.tar'']) (Some (File (Tar ms))))
       d tar_files ks"

text \<open>
  \<open>make_archive\<close>. The staging directory is made, the mode is decided, the archives
  are opened, and only then is the queryset taken and indexed at 0.
\<close>

definition make_archive ::
  "path \<Rightarrow> int \<Rightarrow> (item list \<Rightarrow> item list) \<Rightarrow> node \<Rightarrow> string \<Rightarrow> item list \<Rightarrow> (item \<Rightarrow> string)
   \<Rightarrow> (item \<Rightarrow> error + string) \<Rightarrow> string list \<Rightarrow> node result" where
  "make_archive bulk now queryset_generator fs obj_type_str objs court_attr serialize courts =
     (case mkdir_p fs (staging bulk obj_type_str) of
        Inl err \<Rightarrow> Inl err
      | Inr fs1 \<Rightarrow>
          (let incremental = test_if_old_bulk_files_exist fs1 bulk obj_type_str in
           case open_each fs1 (staging bulk obj_type_str) Map.empty (courts @ [''all'']) of
             Inl err \<Rightarrow> Inl err
           | Inr (fs2, tar_files) \<Rightarrow>
               (let qs = select_records incremental now objs in
                case qs of
                  [] \<Rightarrow> Inl (IndexError, fs2)
                | first # others \<Rightarrow>
                    (case archive_items serialize court_attr tar_files
                            (if is_int_pk (pk first) then queryset_generator qs else qs) of
                       Inl (e, tar_files1) \<Rightarrow>
                         Inl (e, flush_each fs2 (staging bulk obj_type_str) tar_files1
                                   (courts @ [''all'']))
                     | Inr tar_files1 \<Rightarrow>
                         Inr (close_each fs2 (staging bulk obj_type_str) tar_files1
                                (courts @ [''all'']))))))"

text \<open>What opening an archive leaves: the files there were, and at most one new, empty one.\<close>

definition opened_from :: "node \<Rightarrow> node \<Rightarrow> path set \<Rightarrow> bool" where
  "opened_from fs s ps \<longleftrightarrow>
     (\<forall>q c. lookup fs q = Some (File c) \<longrightarrow> lookup s q = Some (File c)) \<and>
     (\<forall>q c. lookup s q = Some (File c) \<longrightarrow>
        lookup fs q = Some (File c) \<or> (c = Raw [] \<and> q \<in> ps))"

text \<open>The number of members of the archive under a key.\<close>

definition member_count :: "tar_files \<Rightarrow> string \<Rightarrow> nat" where
  "member_count tar_files k = (case tar_files k of None \<Rightarrow> 0 | Some ms \<Rightarrow> length ms)"

subsection \<open>One object type\<close>

text \<open>
  One round of the loop of \<open>do_everything\<close>, lines 138 to 153: the records are written,
  archived, and the archives are swapped in.
\<close>

definition export_type ::
  "path \<Rightarrow> int \<Rightarrow> (item list \<Rightarrow> item list) \<Rightarrow> node \<Rightarrow> string \<Rightarrow> item list \<Rightarrow> (item \<Rightarrow> string)
   \<Rightarrow> (item \<Rightarrow> error + string) \<Rightarrow> string list \<Rightarrow> node result" where
  "export_type bulk now queryset_generator fs obj_type_str objs court_attr serialize courts =
     (case write_json_to_disk bulk now queryset_generator fs obj_type_str objs court_attr
             serialize courts of
        Inl err \<Rightarrow> Inl err
      | Inr (fs1, i) \<Rightarrow>
          (case tar_and_compress_all_json_files fs1 bulk obj_type_str courts of
             Inl err \<Rightarrow> Inl err
           | Inr fs2 \<Rightarrow> swap_archives fs2 bulk obj_type_str))"


subsection \<open>Sample filesystems\<close>

definition fs_dot :: node where
  "fs_dot = Dir [(''bulk'', Dir [(''tmp'', Dir [(''document'', Dir [(''.keep'', File (Raw ''''))])])])]"

definition fs_staged :: node where
  "fs_staged = Dir [(''bulk'', Dir
     [(''tmp'', Dir [(''document'', Dir
        [(''scotus'', Dir [(''1.json'', File (Raw ''{1}''))]),
         (''scotus.tar.gz'', File (Gz (Tar [(''1.json'', File (Raw ''{1}''))]))),
         (''all.tar'', File (Tar [(''scotus.tar.gz'',
            File (Gz (Tar [(''1.json'', File (Raw ''{1}''))])))]))])]),
      (''document'', Dir
        [(''README'', File (Raw ''bulk data'')),
         (''all.tar'', File (Tar []))])])]"

text \<open>\<open>fs_staged\<close> after its archives have been swapped in, and with the same archives staged again.\<close>

definition fs_swapped :: node where
  "fs_swapped = Dir [(''bulk'', Dir
     [(''tmp'', Dir [(''document'', Dir
        [(''scotus'', Dir [(''1.json'', File (Raw ''{1}''))])])]),
      (''document'', Dir
        [(''README'', File (Raw ''bulk data'')),
         (''all.tar'', File (Tar [(''scotus.tar.gz'',
            File (Gz (Tar [(''1.json'', File (Raw ''{1}''))])))])),
         (''scotus.tar.gz'', File (Gz (Tar [(''1.json'', File (Raw ''{1}''))])))])])]"


subsection \<open>Sample records\<close>

text \<open>
  A time of export, a record modified a millisecond before it and one modified exactly
  32 days before it; a serializer, a court attribute and a queryset generator.
\<close>

definition now_ex :: int where
  "now_ex = 1700000000000000"

definition item_new :: item where
  "item_new = \<lparr>pk = IntPk 1, date_modified = 1699999999999000\<rparr>"

definition item_old :: item where
  "item_old = \<lparr>pk = IntPk 2, date_modified = 1697235200000000\<rparr>"

definition serialize_ex :: "item \<Rightarrow> error + string" where
  "serialize_ex r = Inr (''{'' @ str_pk (pk r) @ ''}'')"

definition court_ex :: "item \<Rightarrow> string" where
  "court_ex r = ''scotus''"

definition generator_ex :: "item list \<Rightarrow> item list" where
  "generator_ex qs = qs"



text \<open>The fresh directory after a first export of one record, for either court.\<close>

definition fs_first_run :: node where
  "fs_first_run = Dir [(''bulk'', Dir
     [(''tmp'', Dir [(''document'', Dir
        [(''scotus'', Dir [(''1.json'', File (Raw ''{1}''))])])]),
      (''document'', Dir
        [(''scotus.tar.gz'', File (Gz (Tar [(''1.json'', File (Raw ''{1}''))]))),
         (''all.tar'', File (Tar [(''scotus.tar.gz'',
            File (Gz (Tar [(''1.json'', File (Raw ''{1}''))])))]))])])]"


subsection \<open>Sample archives\<close>

text \<open>Three record files of two courts, before and after archiving.\<close>

definition fs_json :: node where
  "fs_json = Dir [(''bulk'', Dir
     [(''tmp'', Dir [(''document'', Dir
        [(''scotus'', Dir [(''1.json'', File (Raw ''{1}'')), (''2.json'', File (Raw ''{2}''))]),
         (''ca9'', Dir [(''3.json'', File (Raw ''{3}''))])])])])]"

definition fs_tarred :: node where
  "fs_tarred = Dir [(''bulk'', Dir
     [(''tmp'', Dir [(''document'', Dir
        [(''scotus'', Dir [(''1.json'', File (Raw ''{1}'')), (''2.json'', File (Raw ''{2}''))]),
         (''ca9'', Dir [(''3.json'', File (Raw ''{3}''))]),
         (''scotus.tar.gz'', File (Gz (Tar
            [(''1.json'', File (Raw ''{1}'')), (''2.json'', File (Raw ''{2}''))]))),
         (''ca9.tar.gz'', File (Gz (Tar [(''3.json'', File (Raw ''{3}''))]))),
         (''all.tar'', File (Tar
            [(''scotus.tar.gz'', File (Gz (Tar
                [(''1.json'', File (Raw ''{1}'')), (''2.json'', File (Raw ''{2}''))]))),
             (''ca9.tar.gz'', File (Gz (Tar [(''3.json'', File (Raw ''{3}''))])))]))])])])]"

text \<open>The archives of \<open>make_archive\<close> for the two courts, freshly opened, and after its loop.\<close>

definition tar_files_ex :: tar_files where
  "tar_files_ex = map_of [(''scotus'', []), (''ca9'', []), (''all'', [])]"

definition tar_files_done :: tar_files where
  "tar_files_done = projr (archive_items serialize_ex court_ex tar_files_ex [item_new, item_old])"

subsection \<open>More sample filesystems\<close>

text \<open>A staging directory with a hidden archive beside the aggregate.\<close>

definition fs_dot_staged :: node where
  "fs_dot_staged = Dir [(''bulk'', Dir
     [(''tmp'', Dir [(''document'', Dir
        [(''.x'', Dir [(''1.json'', File (Raw ''{1}''))]),
         (''.x.tar.gz'', File (Gz (Tar [(''1.json'', File (Raw ''{1}''))]))),
         (''all.tar'', File (Tar [(''.x.tar.gz'',
            File (Gz (Tar [(''1.json'', File (Raw ''{1}''))])))]))])])])]"


text \<open>\<open>fs_dot_staged\<close> after a swap: the hidden archive is still staged.\<close>

definition fs_dot_swapped :: node where
  "fs_dot_swapped = Dir [(''bulk'', Dir
     [(''tmp'', Dir [(''document'', Dir
        [(''.x'', Dir [(''1.json'', File (Raw ''{1}''))]),
         (''.x.tar.gz'', File (Gz (Tar [(''1.json'', File (Raw ''{1}''))])))])]),
      (''document'', Dir
        [(''all.tar'', File (Tar [(''.x.tar.gz'',
            File (Gz (Tar [(''1.json'', File (Raw ''{1}''))])))]))])])]"




text \<open>\<open>fs_first_run\<close> after \<open>make_archive\<close> has met an empty queryset.\<close>

definition fs_stubs :: node where
  "fs_stubs = Dir [(''bulk'', Dir
     [(''tmp'', Dir [(''document'', Dir
        [(''scotus'', Dir [(''1.json'', File (Raw ''{1}''))]),
         (''scotus.tar'', File (Raw [])),
         (''all.tar'', File (Raw []))])]),
      (''document'', Dir
        [(''scotus.tar.gz'', File (Gz (Tar [(''1.json'', File (Raw ''{1}''))]))),
         (''all.tar'', File (Tar [(''scotus.tar.gz'',
            File (Gz (Tar [(''1.json'', File (Raw ''{1}''))])))]))])])]"


section \<open>Properties of the judge importer\<close>

lemma andthen_Inr: "andthen r f = Inr y \<longleftrightarrow> (\<exists>x. r = Inr x \<and> f x = Inr y)"
  by (cases r) (auto simp: andthen_def)

lemma getitem_Inr: "getitem d k = Inr v \<longleftrightarrow> d k = Some v"
  by (auto simp: getitem_def split: option.splits)

lemma delitem_Inr: "delitem d k = Inr d' \<longleftrightarrow> (k \<in> dom d \<and> d' = d(k := None))"
  by (auto simp: delitem_def split: option.splits)

lemma del_if_truthy_Inr:
  "del_if_truthy k victim pos = Inr p \<Longrightarrow>
     (\<exists>v. pos k = Some v \<and> (if truthy v then victim \<in> dom pos \<and> p = pos(victim := None) else p = pos))"
  by (auto simp: del_if_truthy_def andthen_Inr getitem_Inr delitem_Inr split: if_splits)

lemma convert_start_Inr:
  "convert_start conv day pos = Inr p \<Longrightarrow>
     (\<exists>v. pos ''date_start'' = Some v \<and>
        (if truthy v then \<exists>d. conv v = Inr d \<and>
             p = pos(''date_start'' \<mapsto> d, ''date_granularity_start'' \<mapsto> day)
         else p = pos))"
  by (auto simp: convert_start_def andthen_Inr getitem_Inr split: if_splits)

lemma convert_termination_Inr:
  "convert_termination conv day pos = Inr p \<Longrightarrow>
     (\<exists>v. pos ''date_termination'' = Some v \<and>
        (if truthy v then \<exists>d. conv v = Inr d \<and>
             p = pos(''date_termination'' \<mapsto> d, ''date_granularity_termination'' \<mapsto> day)
         else ''termination_reason'' \<in> dom pos \<and>
              p = pos(''date_termination'' := None, ''termination_reason'' := None)))"
  by (auto simp: convert_termination_def andthen_Inr getitem_Inr delitem_Inr split: if_splits)

lemma create_position_Inr:
  "create_position judge pos = Inr r \<longleftrightarrow> (pos ''person'' = None \<and> r = pos(''person'' \<mapsto> judge))"
  by (auto simp: create_position_def split: option.splits)

text \<open>
  Claim C5. A created position whose \<open>court\<close> is set (a true value) has no
  \<open>organization_name\<close> field, and one whose \<open>position_type\<close> is set has no
  \<open>job_title\<close> field: the guarded deletions of lines 63 to 67 are never undone by the
  later steps.
\<close>

theorem exclusive_pairs:
  assumes "import_position conv day judge pos = Inr r"
  shows "(is_set r ''court'' \<longrightarrow> r ''organization_name'' = None) \<and>
         (is_set r ''position_type'' \<longrightarrow> r ''job_title'' = None)"
proof -
  from assms obtain p1 p2 p3 p4 p5 p6 where
    s1: "delitem pos ''pending_status'' = Inr p1" and
    s2: "delitem p1 ''inactive_status'' = Inr p2" and
    s3: "del_if_truthy ''court'' ''organization_name'' p2 = Inr p3" and
    s4: "del_if_truthy ''position_type'' ''job_title'' p3 = Inr p4" and
    s5: "convert_start conv day p4 = Inr p5" and
    s6: "convert_termination conv day p5 = Inr p6" and
    s7: "create_position judge p6 = Inr r"
    unfolding import_position_def prepare_position_def andthen_Inr by blast
  note d3 = del_if_truthy_Inr [OF s3]
  note d4 = del_if_truthy_Inr [OF s4]
  note d5 = convert_start_Inr [OF s5]
  note d6 = convert_termination_Inr [OF s6]
  from s7 have r: "r = p6(''person'' \<mapsto> judge)" by (simp add: create_position_Inr)
  have k5: "p5 ''court'' = p4 ''court'' \<and> p5 ''organization_name'' = p4 ''organization_name''
      \<and> p5 ''position_type'' = p4 ''position_type'' \<and> p5 ''job_title'' = p4 ''job_title''"
    using d5 by (auto split: if_splits)
  have k6: "p6 ''court'' = p5 ''court'' \<and> p6 ''organization_name'' = p5 ''organization_name''
      \<and> p6 ''position_type'' = p5 ''position_type'' \<and> p6 ''job_title'' = p5 ''job_title''"
    using d6 by (auto split: if_splits)
  have kr: "r ''court'' = p6 ''court'' \<and> r ''organization_name'' = p6 ''organization_name''
      \<and> r ''position_type'' = p6 ''position_type'' \<and> r ''job_title'' = p6 ''job_title''"
    using r by simp
  have c3: "is_set p3 ''court'' \<longrightarrow> p3 ''organization_name'' = None"
  proof -
    from d3 obtain v where v: "p2 ''court'' = Some v"
      and e: "if truthy v then p3 = p2(''organization_name'' := None) else p3 = p2"
      by (auto split: if_splits)
    show ?thesis
    proof (cases "truthy v")
      case True
      with e have "p3 ''organization_name'' = None" by simp
      then show ?thesis by simp
    next
      case False
      with e v have "p3 ''court'' = Some v" by simp
      with False show ?thesis by (simp add: is_set_def)
    qed
  qed
  have k4: "p4 ''court'' = p3 ''court'' \<and> p4 ''organization_name'' = p3 ''organization_name''"
  proof -
    from d4 have "p4 = p3(''job_title'' := None) \<or> p4 = p3" by (auto split: if_splits)
    then show ?thesis by auto
  qed
  have c: "is_set p4 ''court'' \<longrightarrow> p4 ''organization_name'' = None"
    using c3 k4 by (simp add: is_set_def)
  have t: "is_set p4 ''position_type'' \<longrightarrow> p4 ''job_title'' = None"
  proof -
    from d4 obtain v where v: "p3 ''position_type'' = Some v"
      and e: "if truthy v then p4 = p3(''job_title'' := None) else p4 = p3"
      by (auto split: if_splits)
    show ?thesis
    proof (cases "truthy v")
      case True
      with e have "p4 ''job_title'' = None" by simp
      then show ?thesis by simp
    next
      case False
      with e v have "p4 ''position_type'' = Some v" by simp
      with False show ?thesis by (simp add: is_set_def)
    qed
  qed
  show ?thesis using c t k5 k6 kr by (simp add: is_set_def)
qed

lemmas importer_defs = import_position_def prepare_position_def andthen_def delitem_def
  getitem_def del_if_truthy_def convert_start_def convert_termination_def create_position_def
  conv_same_def

lemma steps_keep:
  assumes "import_position conv day judge pos = Inr r"
  shows "\<exists>p5. convert_termination conv day p5 = Inr (r(''person'' := None)) \<and> r ''person'' = Some judge
    \<and> p5 ''date_termination'' = pos ''date_termination''
    \<and> p5 ''termination_reason'' = pos ''termination_reason''
    \<and> p5 ''date_granularity_termination'' = pos ''date_granularity_termination''"
proof -
  from assms obtain p1 p2 p3 p4 p5 p6 where
    s1: "delitem pos ''pending_status'' = Inr p1" and
    s2: "delitem p1 ''inactive_status'' = Inr p2" and
    s3: "del_if_truthy ''court'' ''organization_name'' p2 = Inr p3" and
    s4: "del_if_truthy ''position_type'' ''job_title'' p3 = Inr p4" and
    s5: "convert_start conv day p4 = Inr p5" and
    s6: "convert_termination conv day p5 = Inr p6" and
    s7: "create_position judge p6 = Inr r"
    unfolding import_position_def prepare_position_def andthen_Inr by blast
  let ?same = "\<lambda>p q. p ''date_termination'' = q ''date_termination''
    \<and> p ''termination_reason'' = q ''termination_reason''
    \<and> p ''date_granularity_termination'' = q ''date_granularity_termination''"
  from s1 have e1: "p1 = pos(''pending_status'' := None)" by (simp add: delitem_Inr)
  from s2 have e2: "p2 = p1(''inactive_status'' := None)" by (simp add: delitem_Inr)
  from del_if_truthy_Inr [OF s3]
  have e3: "p3 = p2(''organization_name'' := None) \<or> p3 = p2" by (auto split: if_splits)
  from del_if_truthy_Inr [OF s4]
  have e4: "p4 = p3(''job_title'' := None) \<or> p4 = p3" by (auto split: if_splits)
  from convert_start_Inr [OF s5]
  have e5: "(\<exists>d. p5 = p4(''date_start'' \<mapsto> d, ''date_granularity_start'' \<mapsto> day)) \<or> p5 = p4"
    by (auto split: if_splits)
  have a1: "?same p1 pos" using e1 by simp
  have a2: "?same p2 p1" using e2 by simp
  have a3: "?same p3 p2" using e3 by auto
  have a4: "?same p4 p3" using e4 by auto
  have a5: "?same p5 p4" using e5 by auto
  from s7 have r: "p6 ''person'' = None" "r = p6(''person'' \<mapsto> judge)"
    by (simp_all add: create_position_Inr)
  have "r(''person'' := None) = p6" using r by (auto simp: fun_eq_iff)
  with s6 have "convert_termination conv day p5 = Inr (r(''person'' := None))" by simp
  moreover have "r ''person'' = Some judge" using r by simp
  moreover have "?same p5 pos" using a1 a2 a3 a4 a5 by simp
  ultimately show ?thesis by blast
qed

text \<open>
  Claim C4, as the code has it. When the termination date is present (a true value), the
  created position keeps the termination reason it came with and its
  \<open>date_granularity_termination\<close> is the day granularity. When it is not, the
  created position has neither a \<open>termination_reason\<close> nor a \<open>date_termination\<close>
  field, and the importer leaves \<open>date_granularity_termination\<close> as the processed
  position had it: absent when it came without one.
\<close>

theorem termination_fields:
  assumes "import_position conv day judge pos = Inr r"
  shows "(is_set pos ''date_termination'' \<longrightarrow>
            r ''termination_reason'' = pos ''termination_reason'' \<and>
            r ''date_granularity_termination'' = Some day) \<and>
         (\<not> is_set pos ''date_termination'' \<longrightarrow>
            r ''termination_reason'' = None \<and> r ''date_termination'' = None \<and>
            r ''date_granularity_termination'' = pos ''date_granularity_termination'')"
proof -
  from steps_keep [OF assms] obtain p5 where
    ct: "convert_termination conv day p5 = Inr (r(''person'' := None))" and
    dt: "p5 ''date_termination'' = pos ''date_termination''" and
    tr: "p5 ''termination_reason'' = pos ''termination_reason''" and
    gr: "p5 ''date_granularity_termination'' = pos ''date_granularity_termination''"
    by blast
  from convert_termination_Inr [OF ct] obtain v where
    v: "p5 ''date_termination'' = Some v" and
    e: "if truthy v
        then \<exists>d. conv v = Inr d \<and> r(''person'' := None) =
               p5(''date_termination'' \<mapsto> d, ''date_granularity_termination'' \<mapsto> day)
        else ''termination_reason'' \<in> dom p5 \<and> r(''person'' := None) =
               p5(''date_termination'' := None, ''termination_reason'' := None)"
    by blast
  have look: "\<And>k. k \<noteq> ''person'' \<Longrightarrow> r k = (r(''person'' := None)) k" by simp
  show ?thesis
  proof (cases "truthy v")
    case True
    with e obtain d where
      eq: "r(''person'' := None) =
             p5(''date_termination'' \<mapsto> d, ''date_granularity_termination'' \<mapsto> day)"
      by auto
    have "r ''termination_reason'' = p5 ''termination_reason''"
      by (simp add: look [of "''termination_reason''"] eq)
    moreover have "r ''date_granularity_termination'' = Some day"
      by (simp add: look [of "''date_granularity_termination''"] eq)
    moreover have "is_set pos ''date_termination''"
      using True v dt by (simp add: is_set_def)
    ultimately show ?thesis using tr by simp
  next
    case False
    with e have
      eq: "r(''person'' := None) =
             p5(''date_termination'' := None, ''termination_reason'' := None)"
      by auto
    have "r ''termination_reason'' = None"
      by (simp add: look [of "''termination_reason''"] eq)
    moreover have "r ''date_termination'' = None"
      by (simp add: look [of "''date_termination''"] eq)
    moreover have "r ''date_granularity_termination'' = p5 ''date_granularity_termination''"
      by (simp add: look [of "''date_granularity_termination''"] eq)
    moreover have "\<not> is_set pos ''date_termination''"
      using False v dt by (simp add: is_set_def)
    ultimately show ?thesis using gr by simp
  qed
qed

text \<open>
  The importer deletes \<open>date_termination\<close> and \<open>termination_reason\<close> only: a processed
  position that arrives with a \<open>date_granularity_termination\<close> and no termination date
  is created with that granularity still in place.
\<close>

theorem termination_fields_counterexample:
  "\<not> is_set ex_position_gran ''date_termination'' \<and>
   field (import_position conv_same (PStr ''%Y-%m-%d'') (PObj ''judge'') ex_position_gran)
     ''date_granularity_termination'' = Some (PStr ''%Y'')"
  by (simp add: importer_defs ex_position_gran_def ex_position_def field_def is_set_def)

theorem exclusive_pairs_witness:
  "import_position conv_same (PStr ''%Y-%m-%d'') (PObj ''judge'') ex_position = Inr ex_created \<and>
   is_set ex_created ''court'' \<and> ex_created ''organization_name'' = None \<and>
   is_set ex_created ''position_type'' \<and> ex_created ''job_title'' = None"
proof -
  have h: "import_position conv_same (PStr ''%Y-%m-%d'') (PObj ''judge'') ex_position = Inr ex_created"
    by (simp add: ex_created_def importer_defs ex_position_def)
  have c: "is_set ex_created ''court''" "is_set ex_created ''position_type''"
    by (simp_all add: ex_created_def importer_defs ex_position_def is_set_def)
  from exclusive_pairs [OF h] h c show ?thesis by simp
qed

theorem termination_fields_witness:
  "import_position conv_same (PStr ''%Y-%m-%d'') (PObj ''judge'') ex_position_term = Inr ex_created_term \<and>
   is_set ex_position_term ''date_termination'' \<and>
   ex_created_term ''termination_reason'' = Some (PStr ''retire_vol'') \<and>
   ex_created_term ''date_granularity_termination'' = Some (PStr ''%Y-%m-%d'')"
proof -
  have h: "import_position conv_same (PStr ''%Y-%m-%d'') (PObj ''judge'') ex_position_term
             = Inr ex_created_term"
    by (simp add: ex_created_term_def importer_defs ex_position_term_def ex_position_def)
  have c: "is_set ex_position_term ''date_termination''"
    "ex_position_term ''termination_reason'' = Some (PStr ''retire_vol'')"
    by (simp_all add: ex_position_term_def ex_position_def is_set_def)
  from termination_fields [OF h] h c show ?thesis by simp
qed

section \<open>Lookups after an update of the tree\<close>

lemma lookup_append:
  "lookup n (p @ q) = (case lookup n p of None \<Rightarrow> None | Some m \<Rightarrow> lookup m q)"
  by (induction p arbitrary: n) (auto split: node.splits option.splits)

lemma lookup_prefix_exists:
  "lookup n (p @ q) = Some m \<Longrightarrow> lookup n p \<noteq> None"
  by (simp add: lookup_append split: option.splits)

lemma lookup_butlast_isdir:
  assumes "lookup n p = Some m" "p \<noteq> []"
  shows "isdir n (butlast p)"
proof -
  from assms(2) have p: "p = butlast p @ [last p]" by simp
  from assms(1) have "lookup n (butlast p @ [last p]) = Some m" using p by simp
  then show ?thesis
    by (auto simp: lookup_append isdir_def split: option.splits node.splits)
qed

lemma lookup_set_at_unrelated:
  "\<not> prefix p q \<Longrightarrow> \<not> prefix q p \<Longrightarrow> lookup (set_at n p v) q = lookup n q"
proof (induction p arbitrary: n q)
  case Nil
  then show ?case by simp
next
  case (Cons x xs)
  then obtain y ys where q: "q = y # ys" by (cases q) auto
  show ?case
  proof (cases n)
    case (File c)
    then show ?thesis by simp
  next
    case (Dir es)
    show ?thesis
    proof (cases "x = y")
      case False
      then show ?thesis
        by (auto simp: Dir q update_conv' delete_conv' split: option.splits)
    next
      case True
      with Cons.prems q have u: "\<not> prefix xs ys" "\<not> prefix ys xs" by auto
      then have ne: "xs \<noteq> []" by auto
      show ?thesis using Cons.IH [OF u] True ne
        by (auto simp: Dir q update_conv' split: option.splits)
    qed
  qed
qed

lemma lookup_set_at_below:
  "p \<noteq> [] \<Longrightarrow> isdir n (butlast p) \<Longrightarrow>
     lookup (set_at n p v) (p @ r) = (case v of None \<Rightarrow> None | Some m \<Rightarrow> lookup m r)"
proof (induction p arbitrary: n)
  case Nil
  then show ?case by simp
next
  case (Cons x xs)
  show ?case
  proof (cases "xs = []")
    case True
    with Cons.prems obtain es where "n = Dir es"
      by (cases n) (auto simp: isdir_def)
    with True show ?thesis
      by (auto simp: update_conv' delete_conv' split: option.splits)
  next
    case False
    with Cons.prems obtain es ch where n: "n = Dir es" "map_of es x = Some ch"
      and d: "isdir ch (butlast xs)"
      by (cases n) (auto simp: isdir_def split: option.splits)
    from Cons.IH [OF False d] n False show ?thesis
      by (auto simp: update_conv')
  qed
qed

lemma lookup_set_at_None_below:
  "p \<noteq> [] \<Longrightarrow> lookup (set_at n p None) (p @ r) = None"
proof (induction p arbitrary: n)
  case Nil
  then show ?case by simp
next
  case (Cons x xs)
  show ?case
  proof (cases n)
    case (File c)
    then show ?thesis by simp
  next
    case (Dir es)
    show ?thesis
    proof (cases "xs = []")
      case True
      with Dir show ?thesis by (simp add: delete_conv')
    next
      case False
      with Cons.IH Dir show ?thesis
        by (auto simp: update_conv' split: option.splits)
    qed
  qed
qed

text \<open>An ancestor of the path keeps its kind: a file stays that file, a directory a directory.\<close>

lemma lookup_set_at_ancestor:
  "strict_prefix q p \<Longrightarrow>
     (case lookup n q of
        Some (Dir es) \<Rightarrow> \<exists>es'. lookup (set_at n p v) q = Some (Dir es')
      | other \<Rightarrow> lookup (set_at n p v) q = other)"
proof (induction p arbitrary: n q)
  case Nil
  then show ?case by simp
next
  case (Cons x xs)
  show ?case
  proof (cases n)
    case (File c)
    then show ?thesis by (cases q) (auto split: option.splits node.splits)
  next
    case (Dir es)
    show ?thesis
    proof (cases q)
      case Nil
      with Dir show ?thesis by (auto split: option.splits)
    next
      case (Cons y ys)
      with Cons.prems have xy: "y = x" and sp: "strict_prefix ys xs" by auto
      then have ne: "xs \<noteq> []" by auto
      show ?thesis
      proof (cases "map_of es x")
        case None
        with Dir Cons xy ne show ?thesis by (auto split: option.splits node.splits)
      next
        case (Some ch)
        from Cons.IH [OF sp, of ch] Some Dir Cons xy ne show ?thesis
          by (auto simp: update_conv' split: option.splits node.splits)
      qed
    qed
  qed
qed

lemma isdir_set_at_ancestor:
  "strict_prefix q p \<Longrightarrow> isdir (set_at n p v) q = isdir n q"
  using lookup_set_at_ancestor [of q p n v]
  by (auto simp: isdir_def split: option.splits node.splits)

lemma file_set_at_ancestor:
  "strict_prefix q p \<Longrightarrow>
     (lookup (set_at n p v) q = Some (File c)) = (lookup n q = Some (File c))"
  using lookup_set_at_ancestor [of q p n v]
  by (auto split: option.splits node.splits)

lemma none_set_at_ancestor:
  "strict_prefix q p \<Longrightarrow> (lookup (set_at n p v) q = None) = (lookup n q = None)"
  using lookup_set_at_ancestor [of q p n v]
  by (auto split: option.splits node.splits)

section \<open>Properties of the filesystem operations\<close>

lemma fnmatch_star: "fnmatch name ''*''"
  by (induction name) auto

lemma makedirs_parent_exists:
  assumes "p = [] \<or> exists_path fs (butlast p)"
  shows "makedirs fs p = mkdir fs p"
proof -
  from assms have c: "(p \<noteq> [] \<and> \<not> exists_path fs (butlast p)) = False" by blast
  show ?thesis by (subst makedirs.simps) (simp only: c if_False)
qed

lemma makedirs_existing:
  assumes "lookup fs p = Some n"
  shows "makedirs fs p = Inl (OSError EEXIST, fs)"
proof -
  have e: "exists_path fs p" using assms by (simp add: exists_path_def)
  have "p = [] \<or> exists_path fs (butlast p)"
  proof (cases "p = []")
    case True
    then show ?thesis by simp
  next
    case False
    from lookup_butlast_isdir [OF assms False] show ?thesis
      by (auto simp: exists_path_def isdir_def split: option.splits)
  qed
  then have "makedirs fs p = mkdir fs p" by (rule makedirs_parent_exists)
  with e show ?thesis by (simp add: mkdir_def)
qed

lemma makedirs_existing_dir:
  assumes "isdir fs p"
  shows "makedirs fs p = Inl (OSError EEXIST, fs)"
  using assms by (auto simp: isdir_def makedirs_existing split: option.splits node.splits)

lemma makedirs_existing_file:
  assumes "isfile fs p"
  shows "makedirs fs p = Inl (OSError EEXIST, fs)"
  using assms by (auto simp: isfile_def makedirs_existing split: option.splits node.splits)

text \<open>
  Claim C8. \<open>mkdir_p\<close> on a path that is already a directory meets \<open>EEXIST\<close> from
  \<open>os.makedirs\<close>, swallows it and leaves the filesystem as it was. Every other exception
  of the \<open>try\<close> body comes back unchanged: an \<open>OSError\<close> with another \<open>errno\<close>, an
  \<open>EEXIST\<close> for a path that is not a directory (a regular file is in the way), and any
  exception that is not an \<open>OSError\<close>. The last conjunct states the \<open>except\<close> clause for
  an arbitrary exception of the \<open>try\<close> body, whatever the system call that raised it.
\<close>

theorem mkdir_p_errors:
  "(isdir fs p \<longrightarrow> makedirs fs p = Inl (OSError EEXIST, fs) \<and> mkdir_p fs p = Inr fs) \<and>
   (isfile fs p \<longrightarrow> mkdir_p fs p = Inl (OSError EEXIST, fs)) \<and>
   (\<forall>e s. makedirs fs p = Inl (e, s) \<longrightarrow> \<not> (e = OSError EEXIST \<and> isdir s p) \<longrightarrow>
      mkdir_p fs p = Inl (e, s)) \<and>
   (\<forall>e s. mkdir_p_except (Inl (e, s)) p =
      (if e = OSError EEXIST \<and> isdir s p then Inr s else Inl (e, s)))"
proof -
  have h: "\<And>e s. mkdir_p_except (Inl (e, s)) p =
      (if e = OSError EEXIST \<and> isdir s p then Inr s else Inl (e, s))"
    by (auto simp: mkdir_p_except_def split: error.splits)
  have a: "isdir fs p \<Longrightarrow> makedirs fs p = Inl (OSError EEXIST, fs) \<and> mkdir_p fs p = Inr fs"
    by (simp add: makedirs_existing_dir mkdir_p_def h)
  have b: "isfile fs p \<Longrightarrow> mkdir_p fs p = Inl (OSError EEXIST, fs)"
    by (auto simp: makedirs_existing_file mkdir_p_def h isdir_def isfile_def
        split: option.splits node.splits)
  have c: "\<And>e s. makedirs fs p = Inl (e, s) \<Longrightarrow> \<not> (e = OSError EEXIST \<and> isdir s p) \<Longrightarrow>
      mkdir_p fs p = Inl (e, s)"
    by (simp add: mkdir_p_def h)
  show ?thesis using a b c h by blast
qed

lemma glob1_star:
  "glob1 fs d ''*'' =
     (case lookup fs d of
        Some (Dir es) \<Rightarrow> filter (\<lambda>name. \<not> hidden name) (remdups (map fst es))
      | _ \<Rightarrow> [])"
proof -
  have h: "\<not> hidden ''*''" by (simp add: hidden_def)
  show ?thesis
  proof (cases "lookup fs d")
    case None
    then show ?thesis by (simp add: glob1_def listdir_def)
  next
    case (Some n)
    then show ?thesis
      by (cases n) (simp_all add: glob1_def listdir_def h fnmatch_star)
  qed
qed

text \<open>
  Claim C2, as the code has it. The export of an object type is incremental exactly when
  its staging directory exists, is a directory and has an entry whose name does not
  begin with a dot: \<open>glob\<close> with the pattern \<open>*\<close> does not see hidden entries.
\<close>

theorem mode_decision:
  "test_if_old_bulk_files_exist fs bulk t \<longleftrightarrow>
     (\<exists>es. lookup fs (staging bulk t) = Some (Dir es) \<and> (\<exists>name \<in> fst ` set es. \<not> hidden name))"
proof -
  have g: "test_if_old_bulk_files_exist fs bulk t \<longleftrightarrow> glob1 fs (staging bulk t) ''*'' \<noteq> []"
    by (simp add: test_if_old_bulk_files_exist_def glob_def)
  show ?thesis
  proof (cases "lookup fs (staging bulk t)")
    case None
    then show ?thesis by (simp add: g glob1_star)
  next
    case (Some n)
    show ?thesis
    proof (cases n)
      case (File c)
      with Some show ?thesis by (simp add: g glob1_star)
    next
      case (Dir es)
      have "filter (\<lambda>name. \<not> hidden name) (remdups (map fst es)) \<noteq> [] \<longleftrightarrow>
            (\<exists>name \<in> fst ` set es. \<not> hidden name)"
        by (auto simp: filter_empty_conv)
      with Some Dir show ?thesis by (simp add: g glob1_star)
    qed
  qed
qed

text \<open>
  A staging directory whose only entry is the hidden file \<open>.keep\<close> is not empty, and the
  export is a full one all the same.
\<close>

theorem mode_decision_counterexample:
  "lookup fs_dot (staging [''bulk''] ''document'') = Some (Dir [(''.keep'', File (Raw ''''))]) \<and>
   \<not> test_if_old_bulk_files_exist fs_dot [''bulk''] ''document''"
proof -
  have a1: "lookup fs_dot (staging [''bulk''] ''document'')
              = Some (Dir [(''.keep'', File (Raw ''''))])"
    by (simp add: fs_dot_def staging_def)
  have a2: "listdir fs_dot (staging [''bulk''] ''document'') = Inr [''.keep'']"
    by (simp add: listdir_def a1)
  have a3: "glob1 fs_dot (staging [''bulk''] ''document'') ''*'' = []"
    by (simp add: glob1_def a2 hidden_def)
  show ?thesis using a1 a3 by (simp add: test_if_old_bulk_files_exist_def glob_def)
qed

theorem mkdir_p_errors_witness:
  "isdir fs_staged [''bulk'', ''tmp''] \<and>
   makedirs fs_staged [''bulk'', ''tmp''] = Inl (OSError EEXIST, fs_staged) \<and>
   mkdir_p fs_staged [''bulk'', ''tmp''] = Inr fs_staged \<and>
   isfile fs_staged [''bulk'', ''document'', ''README''] \<and>
   mkdir_p fs_staged [''bulk'', ''document'', ''README''] = Inl (OSError EEXIST, fs_staged)"
proof -
  have d: "isdir fs_staged [''bulk'', ''tmp'']"
    by (simp add: isdir_def fs_staged_def)
  have f: "isfile fs_staged [''bulk'', ''document'', ''README'']"
    by (simp add: isfile_def fs_staged_def)
  from mkdir_p_errors [of fs_staged "[''bulk'', ''tmp'']"] d
    mkdir_p_errors [of fs_staged "[''bulk'', ''document'', ''README'']"] f
  show ?thesis by blast
qed

theorem mode_decision_witness:
  "lookup fs_staged (staging [''bulk''] ''audio'') = None \<and>
   \<not> test_if_old_bulk_files_exist fs_staged [''bulk''] ''audio'' \<and>
   test_if_old_bulk_files_exist fs_staged [''bulk''] ''document''"
proof -
  have a: "lookup fs_staged (staging [''bulk''] ''audio'') = None"
    by (simp add: fs_staged_def staging_def)
  have "\<exists>es. lookup fs_staged (staging [''bulk''] ''document'') = Some (Dir es) \<and>
          (\<exists>name \<in> fst ` set es. \<not> hidden name)"
    by (simp add: fs_staged_def staging_def hidden_def)
  with a mode_decision [of fs_staged "[''bulk'']" "''document''"]
    mode_decision [of fs_staged "[''bulk'']" "''audio''"]
  show ?thesis by simp
qed

section \<open>What making directories changes\<close>

lemma final_state_simps [simp]:
  "final_state (Inl (e, s)) = s" "final_state (Inr s) = s"
  by (simp_all add: final_state_def)

lemma parent_errno_None: "parent_errno fs p = None \<longleftrightarrow> p = [] \<or> isdir fs (butlast p)"
  by (simp add: parent_errno_def)

lemma mkdir_Inr:
  "mkdir fs p = Inr s \<longleftrightarrow>
     lookup fs p = None \<and> p \<noteq> [] \<and> isdir fs (butlast p) \<and> s = set_at fs p (Some (Dir []))"
proof (cases "parent_errno fs p")
  case None
  then show ?thesis
    using parent_errno_None [of fs p]
    by (cases "p = []") (auto simp: mkdir_def exists_path_def)
next
  case (Some e)
  then have "\<not> (p = [] \<or> isdir fs (butlast p))"
    using parent_errno_None [of fs p] by simp
  with Some show ?thesis by (auto simp: mkdir_def exists_path_def)
qed

lemma mkdir_Inl: "mkdir fs p = Inl (e, s) \<Longrightarrow> s = fs"
  by (auto simp: mkdir_def split: if_splits option.splits)

text \<open>What making one directory does to every other path.\<close>

lemma mkdir_lookup:
  assumes "final_state (mkdir fs p) = s"
  shows "(\<not> prefix q p \<longrightarrow> lookup s q = lookup fs q) \<and>
         ((lookup s q = Some (File c)) = (lookup fs q = Some (File c))) \<and>
         (isdir fs q \<longrightarrow> isdir s q)"
proof (cases "mkdir fs p")
  case (Inl a)
  then obtain e s' where "mkdir fs p = Inl (e, s')" by (cases a) auto
  with assms mkdir_Inl [of fs p e s'] have "s = fs" by simp
  then show ?thesis by simp
next
  case (Inr s')
  with assms have s: "s = s'" by simp
  from Inr have n: "lookup fs p = None" and ne: "p \<noteq> []" and d: "isdir fs (butlast p)"
    and s': "s' = set_at fs p (Some (Dir []))"
    by (simp_all add: mkdir_Inr)
  have below: "\<And>r. lookup s (p @ r) = lookup (Dir []) r"
    using lookup_set_at_below [OF ne d, of "Some (Dir [])"] s s' by simp
  have below0: "\<And>r. r \<noteq> [] \<Longrightarrow> lookup s (p @ r) = lookup fs (p @ r)"
  proof -
    fix r :: path assume "r \<noteq> []"
    then obtain y ys where "r = y # ys" by (cases r) auto
    then show "lookup s (p @ r) = lookup fs (p @ r)"
      using below [of r] n by (simp add: lookup_append)
  qed
  consider (unrel) "\<not> prefix p q" "\<not> prefix q p" | (eq) "q = p"
    | (under) "strict_prefix p q" | (above) "strict_prefix q p"
    by (auto simp: strict_prefix_def)
  then show ?thesis
  proof cases
    case unrel
    then show ?thesis using lookup_set_at_unrelated [of p q fs] s s' by (simp add: isdir_def)
  next
    case eq
    with below [of "[]"] n show ?thesis by (simp add: isdir_def)
  next
    case under
    then obtain r where "q = p @ r" "r \<noteq> []" by (auto simp: strict_prefix_def prefix_def)
    with below0 show ?thesis by (simp add: isdir_def)
  next
    case above
    then have "prefix q p" by (simp add: strict_prefix_def)
    with above show ?thesis
      using file_set_at_ancestor [OF above, of fs] isdir_set_at_ancestor [OF above, of fs] s s'
      by simp
  qed
qed

lemma makedirs_lookup:
  "final_state (makedirs fs p) = s \<Longrightarrow>
     (\<not> prefix q p \<longrightarrow> lookup s q = lookup fs q) \<and>
     ((lookup s q = Some (File c)) = (lookup fs q = Some (File c))) \<and>
     (isdir fs q \<longrightarrow> isdir s q)"
proof (induction fs p arbitrary: s rule: makedirs.induct)
  case (1 fs p)
  show ?case
  proof (cases "p \<noteq> [] \<and> \<not> exists_path fs (butlast p)")
    case False
    then have "makedirs fs p = mkdir fs p" by (intro makedirs_parent_exists) blast
    with "1.prems" mkdir_lookup [of fs p s q c] show ?thesis by simp
  next
    case True
    define s1 where "s1 = final_state (makedirs fs (butlast p))"
    from "1.IH" [OF True, of s1] s1_def
    have ih: "(\<not> prefix q (butlast p) \<longrightarrow> lookup s1 q = lookup fs q) \<and>
              ((lookup s1 q = Some (File c)) = (lookup fs q = Some (File c))) \<and>
              (isdir fs q \<longrightarrow> isdir s1 q)" by simp
    have pb: "prefix (butlast p) p" using True by (simp add: prefixeq_butlast)
    have np: "\<not> prefix q p \<Longrightarrow> \<not> prefix q (butlast p)"
      using pb by (meson prefix_order.order_trans)
    have "s = s1 \<or> s = final_state (mkdir s1 p)"
    proof (cases "makedirs fs (butlast p)")
      case (Inl a)
      then obtain e s' where a: "makedirs fs (butlast p) = Inl (e, s')" by (cases a) auto
      then have "s1 = s'" by (simp add: s1_def)
      with a True "1.prems" show ?thesis
        by (subst (asm) makedirs.simps) (auto split: if_splits)
    next
      case (Inr s')
      then have "s1 = s'" by (simp add: s1_def)
      with Inr True "1.prems" show ?thesis
        by (subst (asm) makedirs.simps) (auto split: if_splits)
    qed
    then show ?thesis
    proof
      assume "s = s1"
      with ih np show ?thesis by auto
    next
      assume "s = final_state (mkdir s1 p)"
      with mkdir_lookup [of s1 p s q c] ih np show ?thesis by auto
    qed
  qed
qed

lemma mkdir_Inr_isdir: "mkdir fs p = Inr s \<Longrightarrow> isdir s p"
proof -
  assume a: "mkdir fs p = Inr s"
  then have ne: "p \<noteq> []" and d: "isdir fs (butlast p)" and s: "s = set_at fs p (Some (Dir []))"
    by (simp_all add: mkdir_Inr)
  from lookup_set_at_below [OF ne d, of "Some (Dir [])" "[]"] s show ?thesis
    by (simp add: isdir_def)
qed

lemma makedirs_Inr_isdir: "makedirs fs p = Inr s \<Longrightarrow> isdir s p"
  by (subst (asm) makedirs.simps)
     (auto simp: mkdir_Inr_isdir split: if_splits sum.splits prod.splits)

lemma mkdir_p_state: "final_state (mkdir_p fs p) = final_state (makedirs fs p)"
  by (auto simp: mkdir_p_def mkdir_p_except_def split: sum.splits prod.splits error.splits)

lemma mkdir_p_lookup:
  "final_state (mkdir_p fs p) = s \<Longrightarrow>
     (\<not> prefix q p \<longrightarrow> lookup s q = lookup fs q) \<and>
     ((lookup s q = Some (File c)) = (lookup fs q = Some (File c))) \<and>
     (isdir fs q \<longrightarrow> isdir s q)"
  using makedirs_lookup [of fs p s q c] by (simp add: mkdir_p_state)

lemma mkdir_p_Inr_isdir: "mkdir_p fs p = Inr s \<Longrightarrow> isdir s p"
  by (auto simp: mkdir_p_def mkdir_p_except_def makedirs_Inr_isdir
      split: sum.splits prod.splits error.splits if_splits)

section \<open>Globbing and moving\<close>

lemma lookup_child:
  "lookup fs (d @ [name]) =
     (case lookup fs d of Some (Dir es) \<Rightarrow> map_of es name | _ \<Rightarrow> None)"
  by (auto simp: lookup_append split: option.splits node.splits)

lemma glob1_set:
  "set (glob1 fs d pat) =
     {name. lookup fs (d @ [name]) \<noteq> None \<and> (hidden pat \<or> \<not> hidden name) \<and> fnmatch name pat}"
proof (cases "lookup fs d")
  case None
  then show ?thesis by (simp add: glob1_def listdir_def lookup_child)
next
  case (Some n)
  show ?thesis
  proof (cases n)
    case (File c)
    with Some show ?thesis by (simp add: glob1_def listdir_def lookup_child)
  next
    case (Dir es)
    have "\<And>name. (map_of es name \<noteq> None) = (name \<in> fst ` set es)"
      by (simp add: map_of_eq_None_iff)
    with Some Dir show ?thesis
      by (auto simp: glob1_def listdir_def lookup_child)
  qed
qed

lemma glob1_distinct: "distinct (glob1 fs d pat)"
  by (auto simp: glob1_def listdir_def split: option.splits node.splits sum.splits)

lemma glob1_cong: "lookup fs d = lookup s d \<Longrightarrow> glob1 fs d pat = glob1 s d pat"
  by (cases "lookup s d") (auto simp: glob1_def listdir_def split: node.splits)

text \<open>
  \<open>shutil.move\<close> of an entry to a destination whose parent is a directory, source and
  destination lying apart: when it returns, the source has been renamed to the
  destination, or into it when the destination was a directory.
\<close>

lemma rename_apart:
  assumes "rename fs src rd = Inr s" "src \<noteq> rd"
  shows "\<exists>n. lookup fs src = Some n \<and> parent_errno fs rd = None \<and>
             s = set_at (set_at fs src None) rd (Some n)"
proof -
  from assms obtain n where n: "lookup fs src = Some n"
    by (cases "lookup fs src") (auto simp: rename_def)
  from assms n have pe: "parent_errno fs rd = None"
    by (cases "parent_errno fs rd") (auto simp: rename_def)
  from assms n pe have "s = set_at (set_at fs src None) rd (Some n)"
    by (cases n; cases "lookup fs rd")
       (auto simp: rename_def split: node.splits if_splits)
  with n pe show ?thesis by blast
qed

lemma rename_Inl_state: "rename fs src rd = Inl (e, s) \<Longrightarrow> s = fs"
  by (cases "lookup fs src"; cases "parent_errno fs rd"; cases "lookup fs rd")
     (auto simp: rename_def split: node.splits if_splits)

lemma move_to_apart:
  assumes m: "move_to fs src dst rd = Inr s"
    and pe: "parent_errno fs rd = None" and np: "\<not> prefix src rd"
  shows "\<exists>n. lookup fs src = Some n \<and> s = set_at (set_at fs src None) rd (Some n)"
proof (cases "rename fs src rd")
  case (Inr s1)
  with m have "s = s1" by (simp add: move_to_def)
  moreover from np have "src \<noteq> rd" by auto
  ultimately show ?thesis using rename_apart [of fs src rd s] Inr by blast
next
  case (Inl a)
  then obtain e s1 where r: "rename fs src rd = Inl (e, s1)" by (cases a) auto
  then have s1: "s1 = fs" by (rule rename_Inl_state)
  from np have ne: "src \<noteq> rd" by auto
  have fb: "move_fallback fs src dst rd = Inr s"
    using m r s1 by (cases e) (auto simp: move_to_def)
  show ?thesis
  proof (cases "lookup fs src")
    case None
    with fb show ?thesis by (simp add: move_fallback_def)
  next
    case (Some n)
    show ?thesis
    proof (cases n)
      case (File c)
      with Some r ne pe have "isdir fs rd"
        by (cases "lookup fs rd") (auto simp: rename_def isdir_def split: node.splits if_splits)
      with File Some fb show ?thesis by (simp add: move_fallback_def write_file_def)
    next
      case (Dir es)
      with Some r ne pe np have "lookup fs rd \<noteq> None"
        by (cases "lookup fs rd") (auto simp: rename_def split: node.splits if_splits)
      then obtain m where "lookup fs rd = Some m" by auto
      then have "makedirs fs rd = Inl (OSError EEXIST, fs)" by (rule makedirs_existing)
      with Dir Some fb show ?thesis by (simp add: move_fallback_def split: if_splits)
    qed
  qed
qed

lemma move_apart:
  assumes m: "move fs src dst = Inr s"
    and pd: "isdir fs (butlast dst)" and d: "dst \<noteq> []"
    and np: "\<not> prefix src (dst @ [last src])"
  shows "\<exists>n. lookup fs src = Some n \<and>
           s = set_at (set_at fs src None) (if isdir fs dst then dst @ [last src] else dst) (Some n)"
proof -
  from np have nd: "\<not> prefix src dst" by (auto simp: prefix_def)
  then have ne: "src \<noteq> dst" "src \<noteq> []" by auto
  show ?thesis
  proof (cases "isdir fs dst")
    case True
    with m ne have mt: "move_to fs src dst (dst @ [last src]) = Inr s"
      by (auto simp: move_def split: if_splits)
    have "parent_errno fs (dst @ [last src]) = None" using True by (simp add: parent_errno_None)
    from move_to_apart [OF mt this np] True show ?thesis by simp
  next
    case False
    with m have mt: "move_to fs src dst dst = Inr s" by (simp add: move_def)
    have "parent_errno fs dst = None" using pd by (simp add: parent_errno_None)
    from move_to_apart [OF mt this nd] False show ?thesis by simp
  qed
qed

text \<open>The lookups after a rename of \<open>src\<close> to \<open>rd\<close>, the two lying apart.\<close>

lemma renamed_lookup:
  assumes n: "lookup fs src = Some n" and pe: "parent_errno fs rd = None"
    and rd: "rd \<noteq> []" and a: "\<not> prefix src rd" "\<not> prefix rd src"
    and s: "s = set_at (set_at fs src None) rd (Some n)"
  shows "lookup s (rd @ r) = lookup fs (src @ r)"
    and "lookup s (src @ r) = None"
    and "\<not> prefix src q \<Longrightarrow> \<not> prefix q src \<Longrightarrow> \<not> prefix rd q \<Longrightarrow> \<not> prefix q rd \<Longrightarrow>
           lookup s q = lookup fs q"
    and "isdir fs q \<Longrightarrow> \<not> prefix src q \<Longrightarrow> \<not> prefix rd q \<Longrightarrow> isdir s q"
proof -
  let ?m = "set_at fs src None"
  from a have src: "src \<noteq> []" by auto
  have keep: "\<And>q. isdir fs q \<Longrightarrow> \<not> prefix src q \<Longrightarrow> isdir ?m q"
  proof -
    fix q assume q: "isdir fs q" "\<not> prefix src q"
    show "isdir ?m q"
    proof (cases "prefix q src")
      case True
      with q have "strict_prefix q src" by (auto simp: strict_prefix_def)
      with q show ?thesis by (simp add: isdir_set_at_ancestor)
    next
      case False
      with q show ?thesis by (simp add: isdir_def lookup_set_at_unrelated)
    qed
  qed
  from pe rd have "isdir fs (butlast rd)" by (simp add: parent_errno_None)
  moreover have "\<not> prefix src (butlast rd)"
    using a(1) by (meson prefix_order.order_trans prefixeq_butlast)
  ultimately have pd: "isdir ?m (butlast rd)" by (rule keep)
  show "lookup s (rd @ r) = lookup fs (src @ r)"
    using lookup_set_at_below [OF rd pd, of "Some n" r] s n by (simp add: lookup_append)
  have u: "\<not> prefix rd (src @ r)" "\<not> prefix (src @ r) rd"
    using a by (auto simp: prefix_def append_eq_append_conv2)
  show "lookup s (src @ r) = None"
    using lookup_set_at_unrelated [OF u, of ?m "Some n"] lookup_set_at_None_below [OF src, of fs r] s
    by simp
  show "lookup s q = lookup fs q"
    if "\<not> prefix src q" "\<not> prefix q src" "\<not> prefix rd q" "\<not> prefix q rd"
    using that s by (simp add: lookup_set_at_unrelated)
  show "isdir s q" if q: "isdir fs q" "\<not> prefix src q" "\<not> prefix rd q"
  proof -
    from q have m: "isdir ?m q" by (simp add: keep)
    show ?thesis
    proof (cases "prefix q rd")
      case True
      with q have "strict_prefix q rd" by (auto simp: strict_prefix_def)
      with m s show ?thesis by (simp add: isdir_set_at_ancestor)
    next
      case False
      with q m s show ?thesis by (simp add: isdir_def lookup_set_at_unrelated)
    qed
  qed
qed

section \<open>The publisher\<close>

lemma swap_step:
  assumes m: "move fs (bulk @ [''tmp'', t, a]) (bulk @ [t, a]) = Inr s1"
    and p: "isdir fs (bulk @ [t])" and t: "t \<noteq> ''tmp''"
  shows "lookup s1 (bulk @ ''tmp'' # t # a # r) = None"
    and "lookup s1 (landing fs (bulk @ [t]) a @ r) = lookup fs (bulk @ ''tmp'' # t # a # r)"
    and "b \<noteq> a \<Longrightarrow> lookup s1 (bulk @ ''tmp'' # t # b # r) = lookup fs (bulk @ ''tmp'' # t # b # r)"
    and "b \<noteq> a \<Longrightarrow> lookup s1 (bulk @ t # b # r) = lookup fs (bulk @ t # b # r)"
    and "isdir s1 (bulk @ [t])"
    and "lookup fs (bulk @ [''tmp'', t, a]) \<noteq> None"
proof -
  let ?src = "bulk @ [''tmp'', t, a]" and ?dst = "bulk @ [t, a]"
  let ?rd = "landing fs (bulk @ [t]) a"
  have bl: "butlast ?dst = bulk @ [t]" by (simp add: butlast_append)
  have pd: "isdir fs (butlast ?dst)" using p bl by simp
  have np: "\<not> prefix ?src (?dst @ [last ?src])" using t by auto
  from move_apart [OF m pd _ np] obtain n where
    n: "lookup fs ?src = Some n" and s1: "s1 = set_at (set_at fs ?src None) ?rd (Some n)"
    by (auto simp: landing_def)
  have pe: "parent_errno fs ?rd = None"
    using p by (auto simp: landing_def parent_errno_None butlast_append)
  have rd: "?rd \<noteq> []" by (simp add: landing_def)
  have ap: "\<not> prefix ?src ?rd" "\<not> prefix ?rd ?src" using t by (auto simp: landing_def)
  note rl = renamed_lookup [OF n pe rd ap s1]
  show "lookup s1 (bulk @ ''tmp'' # t # a # r) = None" using rl(2) [of r] by simp
  show "lookup s1 (?rd @ r) = lookup fs (bulk @ ''tmp'' # t # a # r)" using rl(1) [of r] by simp
  show "lookup s1 (bulk @ ''tmp'' # t # b # r) = lookup fs (bulk @ ''tmp'' # t # b # r)" if "b \<noteq> a"
    using that t by (intro rl(3)) (auto simp: landing_def)
  show "lookup s1 (bulk @ t # b # r) = lookup fs (bulk @ t # b # r)" if "b \<noteq> a"
    using that t by (intro rl(3)) (auto simp: landing_def)
  show "isdir s1 (bulk @ [t])"
    using p by (intro rl(4)) (auto simp: landing_def)
  show "lookup fs ?src \<noteq> None" using n by simp
qed

lemma move_each_lookup:
  assumes "move_each fs (map (\<lambda>a. bulk @ [''tmp'', t, a]) names) (bulk @ [t]) = Inr s"
    and "distinct names" and "isdir fs (bulk @ [t])" and "t \<noteq> ''tmp''"
  shows "(\<forall>a \<in> set names. \<forall>r.
            lookup s (bulk @ ''tmp'' # t # a # r) = None \<and>
            lookup s (landing fs (bulk @ [t]) a @ r) = lookup fs (bulk @ ''tmp'' # t # a # r)) \<and>
         (\<forall>b. b \<notin> set names \<longrightarrow> (\<forall>r.
            lookup s (bulk @ ''tmp'' # t # b # r) = lookup fs (bulk @ ''tmp'' # t # b # r) \<and>
            lookup s (bulk @ t # b # r) = lookup fs (bulk @ t # b # r))) \<and>
         isdir s (bulk @ [t])"
  using assms
proof (induction names arbitrary: fs)
  case Nil
  then show ?case by simp
next
  case (Cons a rest)
  from Cons.prems(1) obtain s1 where
    m: "move fs (bulk @ [''tmp'', t, a]) (bulk @ [t, a]) = Inr s1" and
    e: "move_each s1 (map (\<lambda>a. bulk @ [''tmp'', t, a]) rest) (bulk @ [t]) = Inr s"
    by (auto split: sum.splits)
  note st = swap_step [OF m Cons.prems(3) Cons.prems(4)]
  from Cons.prems(2) have d: "distinct rest" and a: "a \<notin> set rest" by auto
  from Cons.IH [OF e d st(5) Cons.prems(4)] have
    ih1: "\<And>c r. c \<in> set rest \<Longrightarrow> lookup s (bulk @ ''tmp'' # t # c # r) = None" and
    ih2: "\<And>c r. c \<in> set rest \<Longrightarrow>
            lookup s (landing s1 (bulk @ [t]) c @ r) = lookup s1 (bulk @ ''tmp'' # t # c # r)" and
    ih3: "\<And>b r. b \<notin> set rest \<Longrightarrow>
            lookup s (bulk @ ''tmp'' # t # b # r) = lookup s1 (bulk @ ''tmp'' # t # b # r)" and
    ih4: "\<And>b r. b \<notin> set rest \<Longrightarrow>
            lookup s (bulk @ t # b # r) = lookup s1 (bulk @ t # b # r)" and
    ih5: "isdir s (bulk @ [t])"
    by blast+
  have land: "\<And>c. c \<noteq> a \<Longrightarrow> landing s1 (bulk @ [t]) c = landing fs (bulk @ [t]) c"
    using st(4) [of _ "[]"] by (simp add: landing_def isdir_def)
  have pa: "\<And>r. lookup s (landing fs (bulk @ [t]) a @ r) = lookup fs (bulk @ ''tmp'' # t # a # r)"
  proof -
    fix r
    have "\<exists>r'. landing fs (bulk @ [t]) a @ r = bulk @ t # a # r'"
      by (simp add: landing_def)
    then obtain r' where r': "landing fs (bulk @ [t]) a @ r = bulk @ t # a # r'" by blast
    have "lookup s (bulk @ t # a # r') = lookup s1 (bulk @ t # a # r')" using a by (rule ih4)
    with r' st(2) [of r] show "lookup s (landing fs (bulk @ [t]) a @ r)
        = lookup fs (bulk @ ''tmp'' # t # a # r)" by simp
  qed
  have c1: "\<forall>c \<in> set (a # rest). \<forall>r.
            lookup s (bulk @ ''tmp'' # t # c # r) = None \<and>
            lookup s (landing fs (bulk @ [t]) c @ r) = lookup fs (bulk @ ''tmp'' # t # c # r)"
  proof (intro ballI allI)
    fix c r assume c: "c \<in> set (a # rest)"
    show "lookup s (bulk @ ''tmp'' # t # c # r) = None \<and>
          lookup s (landing fs (bulk @ [t]) c @ r) = lookup fs (bulk @ ''tmp'' # t # c # r)"
    proof (cases "c = a")
      case True
      with ih3 [OF a, of r] st(1) [of r] pa [of r] show ?thesis by simp
    next
      case False
      with c have cr: "c \<in> set rest" by simp
      from ih1 [OF cr] ih2 [OF cr, of r] land [OF False] st(3) [OF False, of r]
      show ?thesis by simp
    qed
  qed
  have c2: "\<forall>b. b \<notin> set (a # rest) \<longrightarrow> (\<forall>r.
            lookup s (bulk @ ''tmp'' # t # b # r) = lookup fs (bulk @ ''tmp'' # t # b # r) \<and>
            lookup s (bulk @ t # b # r) = lookup fs (bulk @ t # b # r))"
  proof (intro allI impI)
    fix b r assume "b \<notin> set (a # rest)"
    then have b: "b \<noteq> a" "b \<notin> set rest" by auto
    from ih3 [OF b(2), of r] ih4 [OF b(2), of r] st(3) [OF b(1), of r] st(4) [OF b(1), of r]
    show "lookup s (bulk @ ''tmp'' # t # b # r) = lookup fs (bulk @ ''tmp'' # t # b # r) \<and>
          lookup s (bulk @ t # b # r) = lookup fs (bulk @ t # b # r)" by simp
  qed
  from c1 c2 ih5 show ?case by blast
qed

lemma swap_archives_lookup:
  assumes sw: "swap_archives fs bulk t = Inr s" and t: "t \<noteq> ''tmp''"
  shows "(\<forall>a \<in> set (glob1 fs (staging bulk t) ''*.tar*''). \<forall>r.
            lookup s (staging bulk t @ a # r) = None \<and>
            lookup s (landing fs (published bulk t) a @ r) = lookup fs (staging bulk t @ a # r)) \<and>
         (\<forall>b. b \<notin> set (glob1 fs (staging bulk t) ''*.tar*'') \<longrightarrow> (\<forall>r.
            lookup s (staging bulk t @ b # r) = lookup fs (staging bulk t @ b # r) \<and>
            lookup s (published bulk t @ b # r) = lookup fs (published bulk t @ b # r))) \<and>
         isdir s (published bulk t)"
proof -
  let ?S = "bulk @ [''tmp'', t]" and ?P = "bulk @ [t]"
  from sw obtain fs1 where
    mk: "mkdir_p fs ?P = Inr fs1" and
    me: "move_each fs1 (glob fs1 ?S ''*.tar*'') ?P = Inr s"
    by (auto simp: swap_archives_def staging_def published_def split: sum.splits)
  from mk have fin: "final_state (mkdir_p fs ?P) = fs1" by simp
  have same: "\<And>q. length ?P < length q \<Longrightarrow> lookup fs1 q = lookup fs q"
  proof -
    fix q :: path assume "length ?P < length q"
    then have "\<not> prefix q ?P" by (auto dest: prefix_length_le)
    with mkdir_p_lookup [OF fin, of q] show "lookup fs1 q = lookup fs q" by blast
  qed
  have g: "glob1 fs1 ?S ''*.tar*'' = glob1 fs ?S ''*.tar*''"
    by (rule glob1_cong) (simp add: same)
  have gl: "glob fs1 ?S ''*.tar*'' = map (\<lambda>a. bulk @ [''tmp'', t, a]) (glob1 fs ?S ''*.tar*'')"
    by (simp add: glob_def g)
  have d: "distinct (glob1 fs ?S ''*.tar*'')" by (rule glob1_distinct)
  have p: "isdir fs1 ?P" using mk by (rule mkdir_p_Inr_isdir)
  have land: "\<And>a. landing fs1 ?P a = landing fs ?P a"
    by (simp add: landing_def isdir_def same)
  from move_each_lookup [OF me [unfolded gl] d p t]
  have "(\<forall>a \<in> set (glob1 fs ?S ''*.tar*''). \<forall>r.
            lookup s (bulk @ ''tmp'' # t # a # r) = None \<and>
            lookup s (landing fs ?P a @ r) = lookup fs (bulk @ ''tmp'' # t # a # r)) \<and>
         (\<forall>b. b \<notin> set (glob1 fs ?S ''*.tar*'') \<longrightarrow> (\<forall>r.
            lookup s (bulk @ ''tmp'' # t # b # r) = lookup fs (bulk @ ''tmp'' # t # b # r) \<and>
            lookup s (bulk @ t # b # r) = lookup fs (bulk @ t # b # r))) \<and>
         isdir s ?P"
    by (simp add: land same)
  then show ?thesis by (simp add: staging_def published_def)
qed






text \<open>
  Claim C6, as the code has it. Let \<open>swap_archives\<close> return for an object type (none is
  called \<open>tmp\<close>). The entries it moves are those of the staging directory whose names
  match \<open>*.tar*\<close> and do not begin with a dot: \<open>glob\<close> does not see hidden entries. Each
  of them, with all below it, is gone from the staging directory and is found in the
  published directory: under its own name, replacing a file of that name if there was
  one, or inside the directory of that name if there was one. Every published entry that
  bears no such name is, with all below it, as it was, and every other staged entry
  stays staged.
\<close>

theorem swap_archives_moves:
  assumes "swap_archives fs bulk t = Inr s" and "t \<noteq> ''tmp''"
  shows "set (glob1 fs (staging bulk t) ''*.tar*'') =
           {name. lookup fs (staging bulk t @ [name]) \<noteq> None \<and> \<not> hidden name \<and>
                  fnmatch name ''*.tar*''} \<and>
         (\<forall>name \<in> set (glob1 fs (staging bulk t) ''*.tar*''). \<forall>r.
            lookup s (staging bulk t @ name # r) = None \<and>
            lookup s (landing fs (published bulk t) name @ r)
              = lookup fs (staging bulk t @ name # r)) \<and>
         (\<forall>name \<in> set (glob1 fs (staging bulk t) ''*.tar*'').
            \<not> isdir fs (published bulk t @ [name]) \<longrightarrow>
            lookup s (published bulk t @ [name]) = lookup fs (staging bulk t @ [name])) \<and>
         (\<forall>name. name \<notin> set (glob1 fs (staging bulk t) ''*.tar*'') \<longrightarrow>
            (\<forall>r. lookup s (published bulk t @ name # r)
                   = lookup fs (published bulk t @ name # r))) \<and>
         (\<forall>name. name \<notin> set (glob1 fs (staging bulk t) ''*.tar*'') \<longrightarrow>
            (\<forall>r. lookup s (staging bulk t @ name # r)
                   = lookup fs (staging bulk t @ name # r)))"
proof -
  note l = swap_archives_lookup [OF assms]
  have h: "\<not> hidden ''*.tar*''" by (simp add: hidden_def)
  have a: "set (glob1 fs (staging bulk t) ''*.tar*'') =
           {name. lookup fs (staging bulk t @ [name]) \<noteq> None \<and> \<not> hidden name \<and>
                  fnmatch name ''*.tar*''}"
    using h by (simp add: glob1_set)
  have b: "\<forall>name \<in> set (glob1 fs (staging bulk t) ''*.tar*''). \<forall>r.
            lookup s (staging bulk t @ name # r) = None \<and>
            lookup s (landing fs (published bulk t) name @ r)
              = lookup fs (staging bulk t @ name # r)"
    using l by blast
  have c: "\<forall>name \<in> set (glob1 fs (staging bulk t) ''*.tar*'').
            \<not> isdir fs (published bulk t @ [name]) \<longrightarrow>
            lookup s (published bulk t @ [name]) = lookup fs (staging bulk t @ [name])"
  proof (intro ballI impI)
    fix name assume n: "name \<in> set (glob1 fs (staging bulk t) ''*.tar*'')"
      and d: "\<not> isdir fs (published bulk t @ [name])"
    from b n have "lookup s (landing fs (published bulk t) name @ [])
              = lookup fs (staging bulk t @ name # [])" by blast
    with d show "lookup s (published bulk t @ [name]) = lookup fs (staging bulk t @ [name])"
      by (simp add: landing_def)
  qed
  have d: "\<forall>name. name \<notin> set (glob1 fs (staging bulk t) ''*.tar*'') \<longrightarrow>
            (\<forall>r. lookup s (published bulk t @ name # r)
                   = lookup fs (published bulk t @ name # r))"
    using l by blast
  have e: "\<forall>name. name \<notin> set (glob1 fs (staging bulk t) ''*.tar*'') \<longrightarrow>
            (\<forall>r. lookup s (staging bulk t @ name # r)
                   = lookup fs (staging bulk t @ name # r))"
    using l by blast
  from a b c d e show ?thesis by blast
qed


lemma sample_swap: "swap_archives fs_staged [''bulk''] ''document'' = Inr fs_swapped"
  by code_simp

lemma sample_glob:
  "glob1 fs_staged (staging [''bulk''] ''document'') ''*.tar*'' = [''scotus.tar.gz'', ''all.tar'']"
  by code_simp


theorem swap_archives_moves_witness:
  "swap_archives fs_staged [''bulk''] ''document'' = Inr fs_swapped \<and> ''document'' \<noteq> ''tmp'' \<and>
   lookup fs_swapped (staging [''bulk''] ''document'' @ [''all.tar'']) = None \<and>
   lookup fs_swapped (published [''bulk''] ''document'' @ [''all.tar''])
     = lookup fs_staged (staging [''bulk''] ''document'' @ [''all.tar'']) \<and>
   lookup fs_swapped (published [''bulk''] ''document'' @ [''README''])
     = lookup fs_staged (published [''bulk''] ''document'' @ [''README''])"
proof -
  have ne: "''document'' \<noteq> ''tmp''" by simp
  note th = swap_archives_moves [OF sample_swap ne]
  have m: "''all.tar'' \<in> set (glob1 fs_staged (staging [''bulk''] ''document'') ''*.tar*'')"
    and n: "''README'' \<notin> set (glob1 fs_staged (staging [''bulk''] ''document'') ''*.tar*'')"
    by (simp_all add: sample_glob)
  have d: "\<not> isdir fs_staged (published [''bulk''] ''document'' @ [''all.tar''])"
    by code_simp
  from th m have "lookup fs_swapped (staging [''bulk''] ''document'' @ ''all.tar'' # []) = None"
    by blast
  moreover from th m d have "lookup fs_swapped (published [''bulk''] ''document'' @ [''all.tar''])
     = lookup fs_staged (staging [''bulk''] ''document'' @ [''all.tar''])"
    by blast
  moreover from th n have "lookup fs_swapped (published [''bulk''] ''document'' @ ''README'' # [])
     = lookup fs_staged (published [''bulk''] ''document'' @ ''README'' # [])"
    by blast
  ultimately show ?thesis using sample_swap ne by simp
qed


text \<open>
  A staged archive whose name begins with a dot matches the pattern and is a regular
  file, and the swap leaves it in the staging directory.
\<close>

theorem swap_archives_moves_counterexample:
  "fnmatch ''.x.tar.gz'' ''*.tar*'' \<and>
   isfile fs_dot_staged (staging [''bulk''] ''document'' @ [''.x.tar.gz'']) \<and>
   swap_archives fs_dot_staged [''bulk''] ''document'' = Inr fs_dot_swapped \<and>
   lookup fs_dot_swapped (staging [''bulk''] ''document'' @ [''.x.tar.gz''])
     = Some (File (Gz (Tar [(''1.json'', File (Raw ''{1}''))]))) \<and>
   lookup fs_dot_swapped (published [''bulk''] ''document'' @ [''.x.tar.gz'']) = None"
  by code_simp


section \<open>Writing the records\<close>

lemma mkdir_each_lookup:
  "final_state (mkdir_each fs d courts) = s \<Longrightarrow>
     ((lookup s q = Some (File c)) = (lookup fs q = Some (File c))) \<and>
     (isdir fs q \<longrightarrow> isdir s q)"
proof (induction courts arbitrary: fs)
  case Nil
  then show ?case by simp
next
  case (Cons court rest)
  show ?case
  proof (cases "mkdir_p fs (d @ [court])")
    case (Inl a)
    then obtain e s1 where a: "mkdir_p fs (d @ [court]) = Inl (e, s1)" by (cases a) auto
    with Cons.prems have "s = s1" by simp
    moreover from a have "final_state (mkdir_p fs (d @ [court])) = s1" by simp
    ultimately show ?thesis using mkdir_p_lookup [of fs "d @ [court]" s q c] by simp
  next
    case (Inr s1)
    then have f: "final_state (mkdir_p fs (d @ [court])) = s1" by simp
    from Inr Cons.prems have "final_state (mkdir_each s1 d rest) = s" by simp
    from Cons.IH [OF this] mkdir_p_lookup [OF f, of q c] show ?thesis by simp
  qed
qed

lemma write_file_Inr:
  "write_file fs p c = Inr s \<longleftrightarrow>
     \<not> isdir fs p \<and> parent_errno fs p = None \<and> s = set_at fs p (Some (File c))"
  by (cases "parent_errno fs p") (auto simp: write_file_def)

lemma set_at_Some_at:
  assumes "parent_errno fs p = None"
  shows "lookup (set_at fs p (Some m)) p = Some m"
proof (cases "p = []")
  case True
  then show ?thesis by simp
next
  case False
  with assms have "isdir fs (butlast p)" by (simp add: parent_errno_None)
  from lookup_set_at_below [OF False this, of "Some m" "[]"] show ?thesis by simp
qed


lemma write_items_result:
  "write_items serialize court_attr d fs items i = Inr (s, j) \<Longrightarrow>
     j = i + length items \<and>
     (\<forall>r \<in> set items. lookup s (d @ [court_attr r]) \<noteq> None) \<and>
     (\<forall>q. lookup fs q \<noteq> None \<longrightarrow> length q = length d + 1 \<longrightarrow> lookup s q \<noteq> None)"
proof (induction items arbitrary: fs i)
  case Nil
  then show ?case by simp
next
  case (Cons it rest)
  let ?p = "d @ [court_attr it, str_pk (pk it) @ ''.json'']"
  from Cons.prems obtain json_str s1 where
    w: "write_file fs ?p (Raw json_str) = Inr s1" and
    r: "write_items serialize court_attr d s1 rest (i + 1) = Inr (s, j)"
    by (auto split: sum.splits)
  from w have pe: "parent_errno fs ?p = None" and s1: "s1 = set_at fs ?p (Some (File (Raw json_str)))"
    by (simp_all add: write_file_Inr)
  from Cons.IH [OF r] have
    ih1: "j = i + 1 + length rest" and
    ih2: "\<forall>r \<in> set rest. lookup s (d @ [court_attr r]) \<noteq> None" and
    ih3: "\<And>q. lookup s1 q \<noteq> None \<Longrightarrow> length q = length d + 1 \<Longrightarrow> lookup s q \<noteq> None"
    by auto
  have "lookup s1 ?p \<noteq> None" using set_at_Some_at [OF pe] s1 by simp
  then obtain y where
    "lookup s1 ((d @ [court_attr it]) @ [str_pk (pk it) @ ''.json'']) = Some y" by auto
  then have "lookup s1 (d @ [court_attr it]) \<noteq> None" by (rule lookup_prefix_exists)
  then have here: "lookup s (d @ [court_attr it]) \<noteq> None" by (intro ih3) simp_all
  have keep: "\<forall>q. lookup fs q \<noteq> None \<longrightarrow> length q = length d + 1 \<longrightarrow> lookup s q \<noteq> None"
  proof (intro allI impI)
    fix q assume q: "lookup fs q \<noteq> None" "length q = length d + 1"
    have "lookup s1 q \<noteq> None"
    proof -
      have "\<not> prefix ?p q" using q(2) by (auto dest: prefix_length_le)
      show ?thesis
      proof (cases "prefix q ?p")
        case True
        with q(2) have "strict_prefix q ?p" by (auto simp: strict_prefix_def)
        with q(1) s1 show ?thesis by (simp add: none_set_at_ancestor)
      next
        case False
        with \<open>\<not> prefix ?p q\<close> q(1) s1 show ?thesis by (simp add: lookup_set_at_unrelated)
      qed
    qed
    then show "lookup s q \<noteq> None" using q(2) by (rule ih3)
  qed
  from ih1 ih2 here keep show ?case by simp
qed

text \<open>
  Claim C1. The queryset of an incremental export holds exactly the records whose
  modification time is later than the time of the call minus 32 days (2764800000000
  microseconds), in the table's order; that of a full export is the whole table. The mode
  is the one decided on the filesystem the export started from, and an export that
  returns has written one file for each record of its queryset.
\<close>

theorem incremental_selection:
  "select_records True now objs = filter (\<lambda>r. now - 2764800000000 < date_modified r) objs \<and>
   select_records False now objs = objs \<and>
   (\<forall>s i. write_json_to_disk bulk now queryset_generator fs t objs court_attr serialize courts
             = Inr (s, i) \<longrightarrow>
          (\<forall>qs. length (queryset_generator qs) = length qs) \<longrightarrow>
          i = length (select_records (test_if_old_bulk_files_exist fs bulk t) now objs))"
proof -
  have a: "select_records True now objs
             = filter (\<lambda>r. now - 2764800000000 < date_modified r) objs"
    by (simp add: select_records_def timedelta_days_def)
  have b: "select_records False now objs = objs" by (simp add: select_records_def)
  have c: "i = length (select_records (test_if_old_bulk_files_exist fs bulk t) now objs)"
    if w: "write_json_to_disk bulk now queryset_generator fs t objs court_attr serialize courts
             = Inr (s, i)"
      and g: "\<forall>qs. length (queryset_generator qs) = length qs" for s i
  proof -
    let ?qs = "select_records (test_if_old_bulk_files_exist fs bulk t) now objs"
    from w obtain fs1 first others where
      q: "?qs = first # others" and
      wi: "write_items serialize court_attr (staging bulk t) fs1
             (if is_int_pk (pk first) then queryset_generator ?qs else ?qs) 0 = Inr (s, i)"
      by (auto simp: write_json_to_disk_def Let_def split: sum.splits list.splits)
    from write_items_result [OF wi] g show ?thesis by (simp split: if_splits)
  qed
  from a b c show ?thesis by blast
qed


lemma sample_write:
  "write_json_to_disk [''bulk''] now_ex generator_ex fs_staged ''document'' [item_old, item_new]
     court_ex serialize_ex [''scotus''] = Inr (fs_staged, 1)"
  by code_simp

theorem incremental_selection_witness:
  "write_json_to_disk [''bulk''] now_ex generator_ex fs_staged ''document'' [item_old, item_new]
     court_ex serialize_ex [''scotus''] = Inr (fs_staged, 1) \<and>
   (\<forall>qs. length (generator_ex qs) = length qs) \<and>
   select_records True now_ex [item_old, item_new] = [item_new] \<and>
   length (select_records (test_if_old_bulk_files_exist fs_staged [''bulk''] ''document'') now_ex
             [item_old, item_new]) = 1"
proof -
  have g: "\<forall>qs. length (generator_ex qs) = length qs" by (simp add: generator_ex_def)
  have f: "filter (\<lambda>r. now_ex - 2764800000000 < date_modified r) [item_old, item_new] = [item_new]"
    by (simp add: now_ex_def item_old_def item_new_def)
  note th = incremental_selection [of now_ex "[item_old, item_new]" "[''bulk'']" generator_ex
      fs_staged "''document''" court_ex serialize_ex "[''scotus'']"]
  from th f have "select_records True now_ex [item_old, item_new] = [item_new]" by simp
  moreover from th sample_write g
  have "1 = length (select_records (test_if_old_bulk_files_exist fs_staged [''bulk''] ''document'')
             now_ex [item_old, item_new])" by blast
  ultimately show ?thesis using sample_write g by simp
qed

lemma write_json_empty:
  assumes "select_records (test_if_old_bulk_files_exist fs bulk t) now objs = []"
  shows "\<exists>e s.
     write_json_to_disk bulk now queryset_generator fs t objs court_attr serialize courts
       = Inl (e, s) \<and>
     export_type bulk now queryset_generator fs t objs court_attr serialize courts = Inl (e, s) \<and>
     (e = IndexError \<or> mkdir_each fs (staging bulk t) courts = Inl (e, s)) \<and>
     (\<forall>q c. (lookup s q = Some (File c)) = (lookup fs q = Some (File c)))"
proof (cases "mkdir_each fs (staging bulk t) courts")
  case (Inl a)
  then obtain e s where a: "mkdir_each fs (staging bulk t) courts = Inl (e, s)" by (cases a) auto
  then have w: "write_json_to_disk bulk now queryset_generator fs t objs court_attr serialize courts
       = Inl (e, s)"
    by (simp add: write_json_to_disk_def)
  then have x: "export_type bulk now queryset_generator fs t objs court_attr serialize courts
       = Inl (e, s)"
    by (simp add: export_type_def)
  from a have "final_state (mkdir_each fs (staging bulk t) courts) = s" by simp
  from mkdir_each_lookup [OF this]
  have "\<forall>q c. (lookup s q = Some (File c)) = (lookup fs q = Some (File c))" by blast
  with a w x show ?thesis by blast
next
  case (Inr s)
  with assms
  have w: "write_json_to_disk bulk now queryset_generator fs t objs court_attr serialize courts
       = Inl (IndexError, s)"
    by (simp add: write_json_to_disk_def)
  then have x: "export_type bulk now queryset_generator fs t objs court_attr serialize courts
       = Inl (IndexError, s)"
    by (simp add: export_type_def)
  from Inr have "final_state (mkdir_each fs (staging bulk t) courts) = s" by simp
  from mkdir_each_lookup [OF this]
  have "\<forall>q c. (lookup s q = Some (File c)) = (lookup fs q = Some (File c))" by blast
  with w x show ?thesis by blast
qed










section \<open>The archives\<close>

lemma add_all_result:
  "add_all fs acc ps = Inr ms \<Longrightarrow>
     (\<forall>p \<in> set ps. lookup fs p \<noteq> None) \<and>
     concat (map (\<lambda>m. records_of (snd m)) ms) =
       concat (map (\<lambda>m. records_of (snd m)) acc) @ concat (map (records_at fs) ps)"
proof (induction ps arbitrary: acc)
  case Nil
  then show ?case by simp
next
  case (Cons p ps)
  from Cons.prems obtain n where n: "lookup fs p = Some n"
    and r: "add_all fs (acc @ [(last p, n)]) ps = Inr ms"
    by (auto split: option.splits)
  from Cons.IH [OF r] n show ?case by (simp add: records_at_def)
qed

lemma archive_name_not_all: "court @ ''.tar.gz'' \<noteq> ''all.tar''"
proof
  assume "court @ ''.tar.gz'' = ''all.tar''"
  then have "last (court @ ''.tar.gz'') = last ''all.tar''" by simp
  then show False by simp
qed

lemma aggregate_of_archives:
  assumes "tar_and_compress_all_json_files fs bulk t courts = Inr s"
  shows "aggregate_records_at s (staging bulk t @ [''all.tar'']) =
           concat (map (\<lambda>court. records_at s (staging bulk t @ [court @ ''.tar.gz''])) courts) \<and>
         (\<forall>court \<in> set courts. lookup s (staging bulk t @ [court @ ''.tar.gz'']) \<noteq> None)"
proof -
  let ?d = "staging bulk t"
  let ?all = "?d @ [''all.tar'']"
  let ?ps = "map (\<lambda>court. ?d @ [court @ ''.tar.gz'']) courts"
  from assms obtain fs1 fs2 members where
    w: "write_file fs1 ?all (Tar []) = Inr fs2" and
    a: "add_all fs2 [] ?ps = Inr members" and
    s: "s = set_at fs2 ?all (Some (File (Tar members)))"
    by (auto simp: tar_and_compress_all_json_files_def Let_def split: sum.splits)
  from w have pe1: "parent_errno fs1 ?all = None"
    and fs2: "fs2 = set_at fs1 ?all (Some (File (Tar [])))"
    by (simp_all add: write_file_Inr)
  have sp: "strict_prefix ?d ?all" by (simp add: strict_prefix_def)
  from pe1 have "isdir fs1 ?d" by (simp add: parent_errno_None butlast_append)
  with sp fs2 have "isdir fs2 ?d" by (simp add: isdir_set_at_ancestor)
  then have pe2: "parent_errno fs2 ?all = None" by (simp add: parent_errno_None butlast_append)
  have at_all: "lookup s ?all = Some (File (Tar members))"
    using set_at_Some_at [OF pe2] s by simp
  have other: "lookup s (?d @ [court @ ''.tar.gz'']) = lookup fs2 (?d @ [court @ ''.tar.gz''])"
    for court
    using archive_name_not_all [of court] s by (simp add: lookup_set_at_unrelated)
  from add_all_result [OF a] have
    ex: "\<forall>p \<in> set ?ps. lookup fs2 p \<noteq> None" and
    ms: "concat (map (\<lambda>m. records_of (snd m)) members) = concat (map (records_at fs2) ?ps)"
    by simp_all
  have eq: "records_at fs2 (?d @ [court @ ''.tar.gz'']) = records_at s (?d @ [court @ ''.tar.gz''])"
    for court by (simp add: records_at_def other)
  have "map (records_at fs2) ?ps
          = map (\<lambda>court. records_at fs2 (?d @ [court @ ''.tar.gz''])) courts"
    by (simp add: comp_def)
  also have "\<dots> = map (\<lambda>court. records_at s (?d @ [court @ ''.tar.gz''])) courts"
    by (simp only: eq)
  finally have meq: "map (records_at fs2) ?ps
          = map (\<lambda>court. records_at s (?d @ [court @ ''.tar.gz''])) courts" .
  have "aggregate_records_at s ?all = concat (map (\<lambda>m. records_of (snd m)) members)"
    using at_all by (simp add: aggregate_records_at_def aggregate_records_def)
  also have "\<dots> = concat (map (records_at fs2) ?ps)" by (rule ms)
  also have "\<dots> = concat (map (\<lambda>court. records_at s (?d @ [court @ ''.tar.gz''])) courts)"
    by (simp only: meq)
  finally have one: "aggregate_records_at s ?all =
      concat (map (\<lambda>court. records_at s (?d @ [court @ ''.tar.gz''])) courts)" .
  from ex other have two: "\<forall>court \<in> set courts. lookup s (?d @ [court @ ''.tar.gz'']) \<noteq> None"
    by simp
  from one two show ?thesis by blast
qed

lemma sum_list_count_bump:
  assumes "distinct courts" and "k \<in> set courts"
  shows "(\<Sum>c\<leftarrow>courts. member_count (tf(k \<mapsto> ms @ [m])) c) =
         (\<Sum>c\<leftarrow>courts. member_count (tf(k \<mapsto> ms)) c) + 1"
  using assms
proof (induction courts)
  case Nil
  then show ?case by simp
next
  case (Cons c cs)
  show ?case
  proof (cases "c = k")
    case True
    with Cons.prems have "k \<notin> set cs" by simp
    then have "\<And>v. (\<Sum>c\<leftarrow>cs. member_count (tf(k \<mapsto> v)) c) = (\<Sum>c\<leftarrow>cs. member_count tf c)"
      by (intro arg_cong [where f = sum_list] map_cong) (auto simp: member_count_def)
    with True show ?thesis by (simp add: member_count_def)
  next
    case False
    with Cons show ?thesis by (simp add: member_count_def)
  qed
qed

lemma sum_list_count_other:
  assumes "k \<notin> set courts"
  shows "(\<Sum>c\<leftarrow>courts. member_count (tf(k \<mapsto> v)) c) = (\<Sum>c\<leftarrow>courts. member_count tf c)"
  using assms
  by (intro arg_cong [where f = sum_list] map_cong) (auto simp: member_count_def)

lemma archive_items_counts:
  assumes "archive_items serialize court_attr tf items = Inr tf'"
    and "distinct courts" and "''all'' \<notin> set courts"
    and "\<forall>it \<in> set items. court_attr it \<in> set courts"
  shows "member_count tf' ''all'' = member_count tf ''all'' + length items \<and>
         (\<Sum>c\<leftarrow>courts. member_count tf' c) = (\<Sum>c\<leftarrow>courts. member_count tf c) + length items"
  using assms
proof (induction items arbitrary: tf)
  case Nil
  then show ?case by simp
next
  case (Cons it rest)
  let ?k = "court_attr it"
  from Cons.prems(4) have k: "?k \<in> set courts" by simp
  with Cons.prems(3) have ka: "?k \<noteq> ''all''" by auto
  from Cons.prems(1) obtain json_str ms al where
    ms: "tf ?k = Some ms" and al: "tf ''all'' = Some al" and
    r: "archive_items serialize court_attr
          (tf(?k \<mapsto> ms @ [(str_pk (pk it) @ ''.json'', File (Raw json_str))],
              ''all'' \<mapsto> al @ [(str_pk (pk it) @ ''.json'', File (Raw json_str))])) rest = Inr tf'"
    using ka by (auto simp: Let_def split: sum.splits option.splits)
  let ?m = "(str_pk (pk it) @ ''.json'', File (Raw json_str))"
  let ?tf1 = "tf(?k \<mapsto> ms @ [?m], ''all'' \<mapsto> al @ [?m])"
  from Cons.prems(4) have rest: "\<forall>it \<in> set rest. court_attr it \<in> set courts" by simp
  note ih = Cons.IH [OF r Cons.prems(2) Cons.prems(3) rest]
  note ih1 = conjunct1 [OF ih] and ih2 = conjunct2 [OF ih]
  have a: "member_count ?tf1 ''all'' = member_count tf ''all'' + 1"
    using al by (simp add: member_count_def)
  have "tf(?k \<mapsto> ms) = tf" using ms by (auto simp: fun_eq_iff)
  with sum_list_count_bump [OF Cons.prems(2) k, of tf ms ?m]
  have "(\<Sum>c\<leftarrow>courts. member_count (tf(?k \<mapsto> ms @ [?m])) c)
          = (\<Sum>c\<leftarrow>courts. member_count tf c) + 1" by simp
  with sum_list_count_other [OF Cons.prems(3), of "tf(?k \<mapsto> ms @ [?m])" "al @ [?m]"]
  have b: "(\<Sum>c\<leftarrow>courts. member_count ?tf1 c) = (\<Sum>c\<leftarrow>courts. member_count tf c) + 1" by simp
  from ih1 have "member_count tf' ''all'' = (member_count tf ''all'' + 1) + length rest"
    by (simp only: a)
  moreover from ih2
  have "(\<Sum>c\<leftarrow>courts. member_count tf' c) = ((\<Sum>c\<leftarrow>courts. member_count tf c) + 1) + length rest"
    by (simp only: b)
  ultimately show ?case by simp
qed

text \<open>
  Claim C3. When \<open>tar_and_compress_all_json_files\<close> returns, the records of the
  aggregate \<open>all.tar\<close> are those of the courts' archives, court after court, so that
  their number is the sum of the numbers of records of the courts' archives. In the loop
  of \<open>make_archive\<close>, for courts with distinct keys other than \<open>all\<close> and items that
  belong to them, every item adds one member to the aggregate and one to the archives of
  the courts taken together: the two counts grow by the number of items.
\<close>

theorem aggregate_count:
  "(\<forall>s. tar_and_compress_all_json_files fs bulk t courts = Inr s \<longrightarrow>
      aggregate_records_at s (staging bulk t @ [''all.tar'']) =
        concat (map (\<lambda>court. records_at s (staging bulk t @ [court @ ''.tar.gz''])) courts) \<and>
      length (aggregate_records_at s (staging bulk t @ [''all.tar''])) =
        (\<Sum>court\<leftarrow>courts. length (records_at s (staging bulk t @ [court @ ''.tar.gz''])))) \<and>
   (\<forall>tar_files'. archive_items serialize court_attr tar_files items = Inr tar_files' \<longrightarrow>
      distinct courts \<longrightarrow> ''all'' \<notin> set courts \<longrightarrow>
      (\<forall>it \<in> set items. court_attr it \<in> set courts) \<longrightarrow>
      member_count tar_files' ''all'' = member_count tar_files ''all'' + length items \<and>
      (\<Sum>c\<leftarrow>courts. member_count tar_files' c)
        = (\<Sum>c\<leftarrow>courts. member_count tar_files c) + length items)"
proof -
  have a: "aggregate_records_at s (staging bulk t @ [''all.tar'']) =
        concat (map (\<lambda>court. records_at s (staging bulk t @ [court @ ''.tar.gz''])) courts) \<and>
      length (aggregate_records_at s (staging bulk t @ [''all.tar''])) =
        (\<Sum>court\<leftarrow>courts. length (records_at s (staging bulk t @ [court @ ''.tar.gz''])))"
    if "tar_and_compress_all_json_files fs bulk t courts = Inr s" for s
  proof -
    from aggregate_of_archives [OF that]
    have e: "aggregate_records_at s (staging bulk t @ [''all.tar'']) =
        concat (map (\<lambda>court. records_at s (staging bulk t @ [court @ ''.tar.gz''])) courts)"
      by blast
    have "length (concat (map (\<lambda>court. records_at s (staging bulk t @ [court @ ''.tar.gz''])) courts))
        = (\<Sum>court\<leftarrow>courts. length (records_at s (staging bulk t @ [court @ ''.tar.gz''])))"
      by (simp add: length_concat comp_def)
    with e show ?thesis by simp
  qed
  from a archive_items_counts [of serialize court_attr tar_files items _ courts]
  show ?thesis by blast
qed

lemma sample_tarred:
  "tar_and_compress_all_json_files fs_json [''bulk''] ''document'' [''scotus'', ''ca9'']
     = Inr fs_tarred"
  by code_simp

lemma sample_archived:
  "archive_items serialize_ex court_ex tar_files_ex [item_new, item_old] = Inr tar_files_done"
proof -
  have "\<not> isl (archive_items serialize_ex court_ex tar_files_ex [item_new, item_old])"
    by code_simp
  then show ?thesis by (simp add: tar_files_done_def)
qed

theorem aggregate_count_witness:
  "tar_and_compress_all_json_files fs_json [''bulk''] ''document'' [''scotus'', ''ca9'']
     = Inr fs_tarred \<and>
   length (aggregate_records_at fs_tarred (staging [''bulk''] ''document'' @ [''all.tar''])) = 3 \<and>
   length (records_at fs_tarred (staging [''bulk''] ''document'' @ [''scotus.tar.gz''])) = 2 \<and>
   length (records_at fs_tarred (staging [''bulk''] ''document'' @ [''ca9.tar.gz''])) = 1 \<and>
   archive_items serialize_ex court_ex tar_files_ex [item_new, item_old] = Inr tar_files_done \<and>
   distinct [''scotus'', ''ca9''] \<and> ''all'' \<notin> set [''scotus'', ''ca9''] \<and>
   court_ex item_new \<in> set [''scotus'', ''ca9''] \<and> court_ex item_old \<in> set [''scotus'', ''ca9''] \<and>
   member_count tar_files_done ''all'' = 2 \<and>
   member_count tar_files_done ''scotus'' + member_count tar_files_done ''ca9'' = 2"
proof -
  note th = aggregate_count [of fs_json "[''bulk'']" "''document''" "[''scotus'', ''ca9'']"
      serialize_ex court_ex tar_files_ex "[item_new, item_old]"]
  have r1: "length (records_at fs_tarred (staging [''bulk''] ''document'' @ [''scotus.tar.gz''])) = 2"
    and r2: "length (records_at fs_tarred (staging [''bulk''] ''document'' @ [''ca9.tar.gz''])) = 1"
    by code_simp+
  have d: "distinct [''scotus'', ''ca9'']" "''all'' \<notin> set [''scotus'', ''ca9'']"
    "court_ex item_new \<in> set [''scotus'', ''ca9'']" "court_ex item_old \<in> set [''scotus'', ''ca9'']"
    by (simp_all add: court_ex_def)
  then have d': "\<forall>it \<in> set [item_new, item_old]. court_ex it \<in> set [''scotus'', ''ca9'']"
    by simp
  have z: "member_count tar_files_ex ''all'' = 0" "member_count tar_files_ex ''scotus'' = 0"
    "member_count tar_files_ex ''ca9'' = 0"
    by code_simp+
  from th sample_tarred
  have "length (aggregate_records_at fs_tarred (staging [''bulk''] ''document'' @ [''all.tar''])) =
        (\<Sum>court\<leftarrow>[''scotus'', ''ca9''].
           length (records_at fs_tarred (staging [''bulk''] ''document'' @ [court @ ''.tar.gz''])))"
    by blast
  with r1 r2
  have one: "length (aggregate_records_at fs_tarred (staging [''bulk''] ''document'' @ [''all.tar'']))
        = 3" by simp
  from th sample_archived d(1,2) d'
  have "member_count tar_files_done ''all''
          = member_count tar_files_ex ''all'' + length [item_new, item_old] \<and>
        (\<Sum>c\<leftarrow>[''scotus'', ''ca9'']. member_count tar_files_done c)
          = (\<Sum>c\<leftarrow>[''scotus'', ''ca9'']. member_count tar_files_ex c) + length [item_new, item_old]"
    by blast
  with z have two: "member_count tar_files_done ''all'' = 2"
    "member_count tar_files_done ''scotus'' + member_count tar_files_done ''ca9'' = 2"
    by simp_all
  from one two r1 r2 sample_tarred sample_archived d show ?thesis by simp
qed

lemma new_file_lookup:
  assumes n: "lookup fs p = None" and pe: "parent_errno fs p = None"
    and s: "s = set_at fs p (Some (File c))"
  shows "(lookup s q = Some (File c')) = ((q = p \<and> c' = c) \<or> lookup fs q = Some (File c'))"
proof -
  from n have ne: "p \<noteq> []" by auto
  with pe have d: "isdir fs (butlast p)" by (simp add: parent_errno_None)
  have below: "\<And>r. lookup s (p @ r) = lookup (File c) r"
    using lookup_set_at_below [OF ne d, of "Some (File c)"] s by simp
  consider (unrel) "\<not> prefix p q" "\<not> prefix q p" | (eq) "q = p"
    | (under) "strict_prefix p q" | (above) "strict_prefix q p"
    by (auto simp: strict_prefix_def)
  then show ?thesis
  proof cases
    case unrel
    then have "q \<noteq> p" by auto
    with unrel s show ?thesis by (simp add: lookup_set_at_unrelated)
  next
    case eq
    with below [of "[]"] n show ?thesis by auto
  next
    case under
    then obtain r where r: "q = p @ r" "r \<noteq> []" by (auto simp: strict_prefix_def prefix_def)
    then obtain y ys where "r = y # ys" by (cases r) auto
    with r below [of r] n show ?thesis by (simp add: lookup_append)
  next
    case above
    then have "q \<noteq> p" by auto
    with above s show ?thesis by (simp add: file_set_at_ancestor)
  qed
qed

lemma opened_from_refl: "opened_from fs fs ps"
  by (simp add: opened_from_def)

lemma opened_from_trans:
  "opened_from fs s1 ps \<Longrightarrow> opened_from s1 s qs \<Longrightarrow> opened_from fs s (ps \<union> qs)"
  unfolding opened_from_def by blast

lemma open_append_Inl: "open_append fs p = Inl (e, s) \<Longrightarrow> s = fs"
  by (auto simp: open_append_def write_file_def
      split: option.splits node.splits content.splits sum.splits if_splits)

lemma open_append_Inr:
  assumes "open_append fs p = Inr (s, ms)"
  shows "opened_from fs s {p} \<and> isfile s p"
proof (cases "lookup fs p")
  case None
  with assms have w: "write_file fs p (Raw []) = Inr s"
    by (auto simp: open_append_def split: sum.splits)
  then have pe: "parent_errno fs p = None" and s: "s = set_at fs p (Some (File (Raw [])))"
    by (simp_all add: write_file_Inr)
  note nf = new_file_lookup [OF None pe s]
  have "opened_from fs s {p}" unfolding opened_from_def using nf by auto
  moreover have "isfile s p" using nf [of p "Raw []"] by (simp add: isfile_def)
  ultimately show ?thesis by blast
next
  case (Some n)
  with assms have "s = fs" and "isfile fs p"
    by (auto simp: open_append_def isfile_def split: node.splits content.splits)
  then show ?thesis by (simp add: opened_from_refl)
qed

lemma isfile_opened_from: "opened_from fs s ps \<Longrightarrow> isfile fs q \<Longrightarrow> isfile s q"
  by (auto simp: opened_from_def isfile_def split: option.splits node.splits)

lemma open_each_Inl:
  "open_each fs d tf keys = Inl (e, s) \<Longrightarrow>
     opened_from fs s ((\<lambda>k. d @ [k @ ''.tar'']) ` set keys)"
proof (induction keys arbitrary: fs tf)
  case Nil
  then show ?case by simp
next
  case (Cons k ks)
  show ?case
  proof (cases "open_append fs (d @ [k @ ''.tar''])")
    case (Inl a)
    with Cons.prems have "open_append fs (d @ [k @ ''.tar'']) = Inl (e, s)" by simp
    then have "s = fs" by (rule open_append_Inl)
    then show ?thesis by (simp add: opened_from_refl)
  next
    case (Inr b)
    then obtain s1 ms where b: "open_append fs (d @ [k @ ''.tar'']) = Inr (s1, ms)"
      by (cases b) auto
    with Cons.prems have "open_each s1 d (tf(k \<mapsto> ms)) ks = Inl (e, s)" by simp
    from Cons.IH [OF this] open_append_Inr [OF b]
    have "opened_from fs s ({d @ [k @ ''.tar'']} \<union> (\<lambda>k. d @ [k @ ''.tar'']) ` set ks)"
      by (blast intro: opened_from_trans)
    then show ?thesis by simp
  qed
qed

lemma open_each_Inr:
  "open_each fs d tf keys = Inr (s, tf') \<Longrightarrow>
     opened_from fs s ((\<lambda>k. d @ [k @ ''.tar'']) ` set keys) \<and>
     (\<forall>k \<in> set keys. isfile s (d @ [k @ ''.tar'']))"
proof (induction keys arbitrary: fs tf)
  case Nil
  then show ?case by (simp add: opened_from_refl)
next
  case (Cons k ks)
  from Cons.prems obtain s1 ms where
    b: "open_append fs (d @ [k @ ''.tar'']) = Inr (s1, ms)" and
    r: "open_each s1 d (tf(k \<mapsto> ms)) ks = Inr (s, tf')"
    by (auto split: sum.splits)
  from Cons.IH [OF r] have
    o: "opened_from s1 s ((\<lambda>k. d @ [k @ ''.tar'']) ` set ks)" and
    f: "\<forall>k \<in> set ks. isfile s (d @ [k @ ''.tar''])" by blast+
  from open_append_Inr [OF b] have
    o1: "opened_from fs s1 {d @ [k @ ''.tar'']}" and f1: "isfile s1 (d @ [k @ ''.tar''])"
    by blast+
  from opened_from_trans [OF o1 o]
  have "opened_from fs s ((\<lambda>k. d @ [k @ ''.tar'']) ` set (k # ks))" by simp
  moreover from isfile_opened_from [OF o f1] f
  have "\<forall>k' \<in> set (k # ks). isfile s (d @ [k' @ ''.tar''])" by simp
  ultimately show ?case by blast
qed

lemma opened_from_mkdir_p:
  assumes "final_state (mkdir_p fs p) = s"
  shows "opened_from fs s {}"
  unfolding opened_from_def using mkdir_p_lookup [OF assms] by blast

lemma mode_after_mkdir_p:
  assumes "mkdir_p fs (staging bulk t) = Inr s"
  shows "test_if_old_bulk_files_exist s bulk t = test_if_old_bulk_files_exist fs bulk t"
proof -
  from assms have fin: "final_state (mkdir_p fs (staging bulk t)) = s" by simp
  have "lookup s (staging bulk t @ [name]) = lookup fs (staging bulk t @ [name])" for name
    using mkdir_p_lookup [OF fin, of "staging bulk t @ [name]"] by auto
  then have "set (glob1 s (staging bulk t) ''*'') = set (glob1 fs (staging bulk t) ''*'')"
    by (simp add: glob1_set)
  then have "(glob1 s (staging bulk t) ''*'' = []) = (glob1 fs (staging bulk t) ''*'' = [])"
    by (metis set_empty)
  then show ?thesis by (simp add: test_if_old_bulk_files_exist_def glob_def)
qed

lemma make_archive_empty:
  assumes "select_records (test_if_old_bulk_files_exist fs bulk t) now objs = []"
  shows "\<exists>e s.
     make_archive bulk now queryset_generator fs t objs court_attr serialize courts = Inl (e, s) \<and>
     opened_from fs s ((\<lambda>k. staging bulk t @ [k @ ''.tar'']) ` set (courts @ [''all''])) \<and>
     ((e = IndexError \<and>
         (\<forall>k \<in> set (courts @ [''all'']). isfile s (staging bulk t @ [k @ ''.tar'']))) \<or>
      mkdir_p fs (staging bulk t) = Inl (e, s) \<or>
      (\<exists>fs1. mkdir_p fs (staging bulk t) = Inr fs1 \<and>
         open_each fs1 (staging bulk t) Map.empty (courts @ [''all'']) = Inl (e, s)))"
proof (cases "mkdir_p fs (staging bulk t)")
  case (Inl a)
  then obtain e s where a: "mkdir_p fs (staging bulk t) = Inl (e, s)" by (cases a) auto
  then have "final_state (mkdir_p fs (staging bulk t)) = s" by simp
  then have "opened_from fs s {}" by (rule opened_from_mkdir_p)
  then have o: "opened_from fs s ((\<lambda>k. staging bulk t @ [k @ ''.tar'']) ` set (courts @ [''all'']))"
    unfolding opened_from_def by blast
  from a have "make_archive bulk now queryset_generator fs t objs court_attr serialize courts
      = Inl (e, s)" by (simp add: make_archive_def)
  with o a show ?thesis by blast
next
  case (Inr fs1)
  then have "final_state (mkdir_p fs (staging bulk t)) = fs1" by simp
  then have o1: "opened_from fs fs1 {}" by (rule opened_from_mkdir_p)
  from assms mode_after_mkdir_p [OF Inr]
  have sel: "select_records (test_if_old_bulk_files_exist fs1 bulk t) now objs = []" by simp
  show ?thesis
  proof (cases "open_each fs1 (staging bulk t) Map.empty (courts @ [''all''])")
    case (Inl a)
    then obtain e s where a: "open_each fs1 (staging bulk t) Map.empty (courts @ [''all''])
        = Inl (e, s)" by (cases a) auto
    from opened_from_trans [OF o1 open_each_Inl [OF a]]
    have o: "opened_from fs s ((\<lambda>k. staging bulk t @ [k @ ''.tar'']) ` set (courts @ [''all'']))"
      by simp
    from a Inr have "make_archive bulk now queryset_generator fs t objs court_attr serialize courts
      = Inl (e, s)" by (simp add: make_archive_def)
    with o a Inr show ?thesis by blast
  next
    case (Inr b)
    then obtain s tf where b: "open_each fs1 (staging bulk t) Map.empty (courts @ [''all''])
        = Inr (s, tf)" by (cases b) auto
    from open_each_Inr [OF b] opened_from_trans [OF o1]
    have o: "opened_from fs s ((\<lambda>k. staging bulk t @ [k @ ''.tar'']) ` set (courts @ [''all'']))"
      and f: "\<forall>k \<in> set (courts @ [''all'']). isfile s (staging bulk t @ [k @ ''.tar''])"
      by auto
    from b \<open>mkdir_p fs (staging bulk t) = Inr fs1\<close> sel
    have "make_archive bulk now queryset_generator fs t objs court_attr serialize courts
      = Inl (IndexError, s)" by (simp add: make_archive_def)
    with o f show ?thesis by blast
  qed
qed

text \<open>
  Claim C9, as the code has it. When the queryset of an object type is empty, both ways
  of exporting raise. \<open>write_json_to_disk\<close>, and with it the round of \<open>do_everything\<close>
  for that type, raises the \<open>IndexError\<close> of \<open>qs[0]\<close> unless making the courts'
  directories had raised already, before anything is archived or swapped: the
  filesystem left behind has the regular files it had, with their contents, and no
  other. \<open>make_archive\<close> opens its archives before it takes the queryset: when it raises
  the \<open>IndexError\<close>, an archive \<open>key.tar\<close> is there for every court's key and for
  \<open>all\<close>, and those that were not there before are empty files. It writes no other
  file and leaves the files there were as they were.
\<close>

theorem empty_selection_fails:
  assumes "select_records (test_if_old_bulk_files_exist fs bulk t) now objs = []"
  shows "(\<exists>e s.
     write_json_to_disk bulk now queryset_generator fs t objs court_attr serialize courts
       = Inl (e, s) \<and>
     export_type bulk now queryset_generator fs t objs court_attr serialize courts = Inl (e, s) \<and>
     (e = IndexError \<or> mkdir_each fs (staging bulk t) courts = Inl (e, s)) \<and>
     (\<forall>q c. (lookup s q = Some (File c)) = (lookup fs q = Some (File c)))) \<and>
   (\<exists>e s.
     make_archive bulk now queryset_generator fs t objs court_attr serialize courts = Inl (e, s) \<and>
     (\<forall>q c. lookup fs q = Some (File c) \<longrightarrow> lookup s q = Some (File c)) \<and>
     (\<forall>q c. lookup s q = Some (File c) \<longrightarrow>
        lookup fs q = Some (File c) \<or>
        (c = Raw [] \<and> (\<exists>k \<in> set (courts @ [''all'']). q = staging bulk t @ [k @ ''.tar'']))) \<and>
     ((e = IndexError \<and>
         (\<forall>k \<in> set (courts @ [''all'']). isfile s (staging bulk t @ [k @ ''.tar'']))) \<or>
      mkdir_p fs (staging bulk t) = Inl (e, s) \<or>
      (\<exists>fs1. mkdir_p fs (staging bulk t) = Inr fs1 \<and>
         open_each fs1 (staging bulk t) Map.empty (courts @ [''all'']) = Inl (e, s))))"
proof -
  note a = write_json_empty [OF assms, where queryset_generator = queryset_generator
      and court_attr = court_attr and serialize = serialize and courts = courts]
  from make_archive_empty [OF assms, where queryset_generator = queryset_generator
      and court_attr = court_attr and serialize = serialize and courts = courts]
  obtain e s where
    m: "make_archive bulk now queryset_generator fs t objs court_attr serialize courts
          = Inl (e, s)" and
    o: "opened_from fs s ((\<lambda>k. staging bulk t @ [k @ ''.tar'']) ` set (courts @ [''all'']))" and
    k: "(e = IndexError \<and>
         (\<forall>k \<in> set (courts @ [''all'']). isfile s (staging bulk t @ [k @ ''.tar'']))) \<or>
      mkdir_p fs (staging bulk t) = Inl (e, s) \<or>
      (\<exists>fs1. mkdir_p fs (staging bulk t) = Inr fs1 \<and>
         open_each fs1 (staging bulk t) Map.empty (courts @ [''all'']) = Inl (e, s))"
    by blast
  from o have o1: "\<forall>q c. lookup fs q = Some (File c) \<longrightarrow> lookup s q = Some (File c)"
    unfolding opened_from_def by blast
  from o have o2: "\<forall>q c. lookup s q = Some (File c) \<longrightarrow>
        lookup fs q = Some (File c) \<or>
        (c = Raw [] \<and> (\<exists>k \<in> set (courts @ [''all'']). q = staging bulk t @ [k @ ''.tar'']))"
    unfolding opened_from_def by blast
  from m o1 o2 k have b: "\<exists>e s.
     make_archive bulk now queryset_generator fs t objs court_attr serialize courts = Inl (e, s) \<and>
     (\<forall>q c. lookup fs q = Some (File c) \<longrightarrow> lookup s q = Some (File c)) \<and>
     (\<forall>q c. lookup s q = Some (File c) \<longrightarrow>
        lookup fs q = Some (File c) \<or>
        (c = Raw [] \<and> (\<exists>k \<in> set (courts @ [''all'']). q = staging bulk t @ [k @ ''.tar'']))) \<and>
     ((e = IndexError \<and>
         (\<forall>k \<in> set (courts @ [''all'']). isfile s (staging bulk t @ [k @ ''.tar'']))) \<or>
      mkdir_p fs (staging bulk t) = Inl (e, s) \<or>
      (\<exists>fs1. mkdir_p fs (staging bulk t) = Inr fs1 \<and>
         open_each fs1 (staging bulk t) Map.empty (courts @ [''all'']) = Inl (e, s)))"
    by blast
  from a b show ?thesis by (rule conjI)
qed

lemma sample_empty:
  "select_records (test_if_old_bulk_files_exist fs_staged [''bulk''] ''document'') now_ex [item_old]
     = []"
  by code_simp

lemma sample_empty_mkdir:
  "mkdir_each fs_staged (staging [''bulk''] ''document'') [''scotus''] = Inr fs_staged"
  by code_simp

theorem empty_selection_fails_witness:
  "select_records (test_if_old_bulk_files_exist fs_staged [''bulk''] ''document'') now_ex [item_old]
     = [] \<and>
   write_json_to_disk [''bulk''] now_ex generator_ex fs_staged ''document'' [item_old]
     court_ex serialize_ex [''scotus''] = Inl (IndexError, fs_staged) \<and>
   export_type [''bulk''] now_ex generator_ex fs_staged ''document'' [item_old]
     court_ex serialize_ex [''scotus''] = Inl (IndexError, fs_staged) \<and>
   (\<exists>e s. make_archive [''bulk''] now_ex generator_ex fs_staged ''document'' [item_old]
     court_ex serialize_ex [''scotus''] = Inl (e, s) \<and>
     lookup s (staging [''bulk''] ''document'' @ [''scotus'', ''1.json''])
       = Some (File (Raw ''{1}'')))"
proof -
  note th = empty_selection_fails [OF sample_empty, where queryset_generator = generator_ex
      and court_attr = court_ex and serialize = serialize_ex and courts = "[''scotus'']"]
  from th obtain e s where
    w: "write_json_to_disk [''bulk''] now_ex generator_ex fs_staged ''document'' [item_old]
          court_ex serialize_ex [''scotus''] = Inl (e, s)" and
    x: "export_type [''bulk''] now_ex generator_ex fs_staged ''document'' [item_old]
          court_ex serialize_ex [''scotus''] = Inl (e, s)" and
    e: "e = IndexError \<or> mkdir_each fs_staged (staging [''bulk''] ''document'') [''scotus'']
          = Inl (e, s)"
    by blast
  from e sample_empty_mkdir have e': "e = IndexError" by simp
  with w sample_empty sample_empty_mkdir have "s = fs_staged"
    by (simp add: write_json_to_disk_def)
  with w x e' have one:
    "write_json_to_disk [''bulk''] now_ex generator_ex fs_staged ''document'' [item_old]
       court_ex serialize_ex [''scotus''] = Inl (IndexError, fs_staged)"
    "export_type [''bulk''] now_ex generator_ex fs_staged ''document'' [item_old]
       court_ex serialize_ex [''scotus''] = Inl (IndexError, fs_staged)"
    by simp_all
  have f: "lookup fs_staged (staging [''bulk''] ''document'' @ [''scotus'', ''1.json''])
             = Some (File (Raw ''{1}''))" by code_simp
  from th obtain e2 s2 where
    m: "make_archive [''bulk''] now_ex generator_ex fs_staged ''document'' [item_old]
          court_ex serialize_ex [''scotus''] = Inl (e2, s2)" and
    keep: "\<forall>q c. lookup fs_staged q = Some (File c) \<longrightarrow> lookup s2 q = Some (File c)"
    by blast
  from keep f have "lookup s2 (staging [''bulk''] ''document'' @ [''scotus'', ''1.json''])
             = Some (File (Raw ''{1}''))" by blast
  with m have two: "\<exists>e s. make_archive [''bulk''] now_ex generator_ex fs_staged ''document''
     [item_old] court_ex serialize_ex [''scotus''] = Inl (e, s) \<and>
     lookup s (staging [''bulk''] ''document'' @ [''scotus'', ''1.json''])
       = Some (File (Raw ''{1}''))" by blast
  from one two sample_empty show ?thesis by simp
qed

text \<open>
  An incremental \<open>make_archive\<close> in which no record is recent enough: the
  \<open>IndexError\<close> comes after an empty \<open>scotus.tar\<close> and an empty \<open>all.tar\<close> have been
  created in the staging directory.
\<close>

theorem empty_selection_fails_counterexample:
  "select_records (test_if_old_bulk_files_exist fs_first_run [''bulk''] ''document'') now_ex
     [item_old] = [] \<and>
   lookup fs_first_run (staging [''bulk''] ''document'' @ [''scotus.tar'']) = None \<and>
   lookup fs_first_run (staging [''bulk''] ''document'' @ [''all.tar'']) = None \<and>
   make_archive [''bulk''] now_ex generator_ex fs_first_run ''document'' [item_old]
     court_ex serialize_ex [''scotus''] = Inl (IndexError, fs_stubs) \<and>
   lookup fs_stubs (staging [''bulk''] ''document'' @ [''scotus.tar'']) = Some (File (Raw [])) \<and>
   lookup fs_stubs (staging [''bulk''] ''document'' @ [''all.tar'']) = Some (File (Raw []))"
  by code_simp

end
